theory Spec2Isabelle
  imports Main "HOL-Library.Word" "HOL-Library.Sublist"
begin

section \<open>Type descriptors supplied by the host\<close>

text \<open>
  The analyzer only asks three things of a \<^verbatim>\<open>reflect.Type\<close>: whether its kind is
  \<^verbatim>\<open>Ptr\<close> (and then its \<^verbatim>\<open>Elem()\<close>), whether its kind is \<^verbatim>\<open>Struct\<close>, and, for a
  struct, its members in declaration order. A struct type is named by a number and its
  member list is looked up in a type table, so that recursive types such as
  \<^verbatim>\<open>type T struct { next *T }\<close> are representable. \<open>NoType\<close> is the nil
  \<^verbatim>\<open>reflect.Type\<close>; \<open>Other k\<close> is any type whose kind is neither pointer nor struct.
\<close>

datatype gtype = NoType | Other string | Ptr gtype | Struct nat

record StructField =
  Name :: string
  Type :: gtype
  Offset :: nat

type_synonym tenv = "nat \<Rightarrow> StructField list"

fun isStruct :: "gtype \<Rightarrow> bool" where
  "isStruct (Struct n) = True"
| "isStruct t = False"

text \<open>
  \<^verbatim>\<open>structTyp.NumField()\<close> and \<^verbatim>\<open>structTyp.Field(i)\<close> for \<open>i = 0, 1, ...\<close>. The analyzer
  calls them on queued fields, whose element kind was tested to be \<^verbatim>\<open>Struct\<close>, and on the
  root type; on a root type that is not a struct \<^verbatim>\<open>NumField()\<close> panics, which
  \<open>newStructType\<close> below models.
\<close>

fun structMembers :: "tenv \<Rightarrow> gtype \<Rightarrow> StructField list" where
  "structMembers env (Struct n) = env n"
| "structMembers env t = []"

section \<open>Field descriptors and type shapes (access.go)\<close>

text \<open>
  \<^verbatim>\<open>FieldType\<close>: the parent link is a pointer to a descriptor that is never modified after
  its creation except for its \<^verbatim>\<open>children\<close> slice; the link is held by value and the
  children slices are kept in the shape, keyed by the id of the owning descriptor
  (\<open>-1\<close> for the tree root). Go's \<^verbatim>\<open>int\<close> counters (ids, depths, pointer counts) are
  bounded by the lengths of slices and the sizes of types; they are unbounded integers
  here.
\<close>

datatype FieldType = MkFieldType (id_f: int) (selector: string) (deep: int) (ptrNum: int)
  (elemTyp: gtype) (parent: "FieldType option") (StructField: StructField)

type_synonym IterPolicy = "8 word"

abbreviation Take :: IterPolicy where "Take \<equiv> 0"
abbreviation Hide :: IterPolicy where "Hide \<equiv> 1"
abbreviation SkipOffspring :: IterPolicy where "SkipOffspring \<equiv> 2"
abbreviation Skip :: IterPolicy where "Skip \<equiv> 3"
abbreviation TakeAndStop :: IterPolicy where "TakeAndStop \<equiv> 4"
abbreviation HideAndStop :: IterPolicy where "HideAndStop \<equiv> 5"
abbreviation SkipOffspringAndStop :: IterPolicy where "SkipOffspringAndStop \<equiv> 6"
abbreviation SkipAndStop :: IterPolicy where "SkipAndStop \<equiv> 7"

type_synonym IteratorFunc = "FieldType \<Rightarrow> IterPolicy"
type_synonym GroupByFunc = "FieldType \<Rightarrow> string \<times> bool"

record StructType =
  tid :: "32 word"
  fields_s :: "FieldType list"
  fieldGroup :: "string \<Rightarrow> FieldType list"
  depth :: int
  tree :: FieldType
  children :: "int \<Rightarrow> FieldType list"

definition rootID :: int where
  "rootID = -1"

definition joinFieldName :: "string \<Rightarrow> string \<Rightarrow> string" where
  "joinFieldName parentPath name = parentPath @ ''.'' @ name"

text \<open>
  The older revision of \<^verbatim>\<open>joinFieldName\<close> kept in part_000, which tests for the empty
  parent path.
\<close>

definition joinFieldName_0 :: "string \<Rightarrow> string \<Rightarrow> string" where
  "joinFieldName_0 parentPath name =
     (if parentPath = [] then name else parentPath @ ''.'' @ name)"

text \<open>The loop \<^verbatim>\<open>for elemTyp.Kind() == reflect.Ptr { elemTyp = elemTyp.Elem(); ptrNum++ }\<close>.\<close>

fun derefType :: "gtype \<Rightarrow> int \<Rightarrow> gtype \<times> int" where
  "derefType (Ptr t) n = derefType t (n + 1)"
| "derefType t n = (t, n)"

text \<open>
  \<^verbatim>\<open>parent.children = append(parent.children, field); s.fields = append(s.fields, field)\<close>
\<close>

definition takeField :: "FieldType \<Rightarrow> FieldType \<Rightarrow> StructType \<Rightarrow> StructType" where
  "takeField par field s =
     s\<lparr>children := (children s)(id_f par := children s (id_f par) @ [field]),
       fields_s := fields_s s @ [field]\<rparr>"

text \<open>
  The descriptor that an iteration of the loop labelled \<^verbatim>\<open>L\<close> builds for member \<open>f\<close>:
  \<^verbatim>\<open>field := &FieldType{parent: parent, id: len(s.fields), selector: ..., deep: s.depth, ...}\<close>
  after the pointer-stripping loop.
\<close>

definition newField :: "StructType \<Rightarrow> FieldType \<Rightarrow> StructField \<Rightarrow> FieldType" where
  "newField s par f =
     (case derefType (Type f) 0 of
        (elemTyp', ptrNum') \<Rightarrow>
          MkFieldType (int (length (fields_s s))) (joinFieldName (selector par) (Name f))
            (depth s) ptrNum' elemTyp' (Some par) f)"

text \<open>
  One iteration of that loop. The state is the shape and the local slice
  \<^verbatim>\<open>structFields\<close>; the flag tells whether the iteration left the loop by \<^verbatim>\<open>break L\<close>.
  The tests follow the order of the \<^verbatim>\<open>switch\<close>; a policy that matches no \<^verbatim>\<open>case\<close> takes
  the \<^verbatim>\<open>default\<close> branch, which falls through to the branch of \<^verbatim>\<open>Take, TakeAndStop\<close>.
\<close>

definition visit :: "IteratorFunc option \<Rightarrow> FieldType \<Rightarrow> StructField \<Rightarrow>
    StructType \<times> FieldType list \<Rightarrow> (StructType \<times> FieldType list) \<times> bool" where
  "visit iter par f st =
     (case st of (s, structFields) \<Rightarrow>
       (let field = newField s par f;
            taken = (takeField par field s,
                     if isStruct (elemTyp field) then structFields @ [field] else structFields)
        in case iter of
             None \<Rightarrow> (taken, False)
           | Some fn \<Rightarrow>
               (let p = fn field in
                if p = Take \<or> p = TakeAndStop then (taken, p = TakeAndStop)
                else if p = SkipOffspring \<or> p = SkipOffspringAndStop
                  then ((takeField par field s, structFields), p = SkipOffspringAndStop)
                else if p = Skip then ((s, structFields), False)
                else if p = SkipAndStop then ((s, structFields), True)
                else (taken, p = TakeAndStop))))"

fun levelLoop :: "IteratorFunc option \<Rightarrow> FieldType \<Rightarrow> StructField list \<Rightarrow>
    StructType \<times> FieldType list \<Rightarrow> StructType \<times> FieldType list" where
  "levelLoop iter par [] st = st"
| "levelLoop iter par (f # rest) st =
     (case visit iter par f st of
        (st', stop) \<Rightarrow> if stop then st' else levelLoop iter par rest st')"

text \<open>
  \<^verbatim>\<open>traversalFields\<close>, and its closing loop \<^verbatim>\<open>for _, field := range structFields\<close> as
  \<open>expandFields\<close>. The counter \<^verbatim>\<open>s.depth\<close> is a field of the shape: every call that passes
  the guard increments it and nothing decrements it.
\<close>

function traversalFields ::
    "tenv \<Rightarrow> int \<Rightarrow> IteratorFunc option \<Rightarrow> FieldType \<Rightarrow> StructType \<Rightarrow> StructType"
  and expandFields ::
    "tenv \<Rightarrow> int \<Rightarrow> IteratorFunc option \<Rightarrow> FieldType list \<Rightarrow> StructType \<Rightarrow> StructType"
where
  "traversalFields env maxFieldDeep iter par s =
     (if depth s \<ge> maxFieldDeep then s
      else case levelLoop iter par (structMembers env (elemTyp par))
                  (s\<lparr>depth := depth s + 1\<rparr>, []) of
             (s', structFields) \<Rightarrow> expandFields env maxFieldDeep iter structFields s')"
| "expandFields env maxFieldDeep iter [] s = s"
| "expandFields env maxFieldDeep iter (field # rest) s =
     expandFields env maxFieldDeep iter rest (traversalFields env maxFieldDeep iter field s)"
  by pat_completeness auto

lemma depth_takeField [simp]: "depth (takeField par field s) = depth s"
  by (simp add: takeField_def)

lemma depth_visit: "depth (fst (fst (visit iter par f st))) = depth (fst st)"
  by (simp add: visit_def newField_def Let_def split: prod.splits option.splits)

lemma depth_levelLoop: "depth (fst (levelLoop iter par ms st)) = depth (fst st)"
proof (induction ms arbitrary: st)
  case Nil
  show ?case by simp
next
  case (Cons f rest)
  obtain st' stop where v: "visit iter par f st = (st', stop)"
    by (cases "visit iter par f st")
  have d: "depth (fst st') = depth (fst st)"
    using depth_visit [of iter par f st] v by simp
  show ?case using Cons.IH [of st'] v d by simp
qed

lemma depth_levelLoop_bump:
  "levelLoop iter par ms (s\<lparr>depth := depth s + 1\<rparr>, []) = (s', q) \<Longrightarrow> depth s' = depth s + 1"
  using depth_levelLoop [of iter par ms "(s\<lparr>depth := depth s + 1\<rparr>, [])"] by simp

lemma depth_mono_dom:
  "traversalFields_expandFields_dom (Inl (env, m, iter, par, s)) \<Longrightarrow>
     depth s \<le> depth (traversalFields env m iter par s)"
  "traversalFields_expandFields_dom (Inr (env, m, iter, fs, s)) \<Longrightarrow>
     depth s \<le> depth (expandFields env m iter fs s)"
proof (induction env m iter par s and env m iter fs s
        rule: traversalFields_expandFields.pinduct)
  case (1 env m iter par s)
  show ?case
  proof (cases "m \<le> depth s")
    case True
    then show ?thesis using 1(1) by (simp add: traversalFields.psimps)
  next
    case False
    obtain s' q where l: "levelLoop iter par (structMembers env (elemTyp par))
                            (s\<lparr>depth := depth s + 1\<rparr>, []) = (s', q)"
      by (cases "levelLoop iter par (structMembers env (elemTyp par))
                   (s\<lparr>depth := depth s + 1\<rparr>, [])")
    have d: "depth s' = depth s + 1"
      using depth_levelLoop_bump [OF l] .
    have "depth s' \<le> depth (expandFields env m iter q s')"
      using 1(2) [OF False l [symmetric]] .
    then show ?thesis using 1(1) False l d by (simp add: traversalFields.psimps)
  qed
next
  case (2 env m iter s)
  then show ?case by (simp add: expandFields.psimps)
next
  case (3 env m iter field rest s)
  then show ?case by (simp add: expandFields.psimps)
qed

termination traversalFields
proof (relation "measures
    [\<lambda>x. case x of Inl (env, m, iter, p, s) \<Rightarrow> nat (m - depth s)
                  | Inr (env, m, iter, fs, s) \<Rightarrow> nat (m - depth s),
     \<lambda>x. case x of Inl _ \<Rightarrow> 0 | Inr (env, m, iter, fs, s) \<Rightarrow> Suc (length fs)]",
    goal_cases)
  case 1
  show ?case by simp
next
  case (2 env m iter par s x y)
  have "depth x = depth s + 1"
    using depth_levelLoop_bump [OF 2(2) [symmetric]] .
  then show ?case using 2(1) by simp
next
  case (3 env m iter field rest s)
  show ?case by simp
next
  case (4 env m iter field rest s)
  have "depth s \<le> depth (traversalFields env m iter field s)"
    using depth_mono_dom(1) [OF 4] .
  then show ?case by auto
qed

declare traversalFields.simps [simp del]

section \<open>Memory and reflect values\<close>

text \<open>
  The bound instance lives in memory that the code reaches through \<^verbatim>\<open>unsafe.Pointer\<close>
  and \<^verbatim>\<open>reflect\<close>. Memory is a map from addresses to the word stored there; a pointer is
  the address of its target and \<open>0\<close> is nil. \<open>brk\<close> is the allocation frontier:
  \<^verbatim>\<open>reflect.New\<close> hands out the zeroed block that starts there.
\<close>

record heap =
  mem :: "nat \<Rightarrow> nat"
  brk :: nat

text \<open>
  A \<^verbatim>\<open>reflect.Value\<close>, as far as the accessor uses it: the zero Value; a value that
  the Value holds itself (the results of \<^verbatim>\<open>reflect.ValueOf\<close>, \<^verbatim>\<open>reflect.NewAt\<close> and
  \<^verbatim>\<open>reflect.New\<close>, not addressable; for a pointer the number is the address it holds);
  or an addressable value of the given type stored at the given address (the result of
  \<^verbatim>\<open>Elem()\<close> on a pointer).
\<close>

datatype rvalue = Invalid | Direct gtype nat | Indir gtype nat

datatype panic = NotAStruct | IndexOutOfRange | ReflectPanic

text \<open>
  The argument \<^verbatim>\<open>structPtr interface{}\<close>: its runtime type id, its dynamic type and
  the word it holds, which is an address when the type is a pointer.
\<close>

record GoArg =
  argTid :: "32 word"
  argTyp :: gtype
  argPtr :: nat

text \<open>
  \<^verbatim>\<open>reflect.ValueOf(structPtr)\<close>, or \<^verbatim>\<open>structPtr\<close> itself when it is a
  \<^verbatim>\<open>reflect.Value\<close>: a Value that holds the argument's word itself; of the nil
  interface, the zero Value.
\<close>

definition ValueOf :: "GoArg \<Rightarrow> rvalue" where
  "ValueOf x = (if argTyp x = NoType then Invalid else Direct (argTyp x) (argPtr x))"

text \<open>
  \<^verbatim>\<open>ameda.DereferencePtrValue\<close> (an external library: ``returns the underlying
  non-pointer type value'') is the loop \<^verbatim>\<open>for v.Kind() == reflect.Ptr { v = v.Elem() }\<close>.
  \<^verbatim>\<open>Elem()\<close> of a nil pointer is the zero Value, whose kind is \<^verbatim>\<open>Invalid\<close>, so the loop
  ends there. \<^verbatim>\<open>v.Type()\<close> panics on the zero Value.
\<close>

function DereferencePtrValue :: "heap \<Rightarrow> rvalue \<Rightarrow> rvalue" where
  "DereferencePtrValue h (Direct (Ptr t) p) =
     (if p = 0 then Invalid else DereferencePtrValue h (Indir t p))"
| "DereferencePtrValue h (Indir (Ptr t) a) =
     (if mem h a = 0 then Invalid else DereferencePtrValue h (Indir t (mem h a)))"
| "DereferencePtrValue h (Direct NoType p) = Direct NoType p"
| "DereferencePtrValue h (Direct (Other k) p) = Direct (Other k) p"
| "DereferencePtrValue h (Direct (Struct n) p) = Direct (Struct n) p"
| "DereferencePtrValue h (Indir NoType a) = Indir NoType a"
| "DereferencePtrValue h (Indir (Other k) a) = Indir (Other k) a"
| "DereferencePtrValue h (Indir (Struct n) a) = Indir (Struct n) a"
| "DereferencePtrValue h Invalid = Invalid"
  by pat_completeness auto

termination DereferencePtrValue
  by (relation "measure (\<lambda>(h, v). case v of Invalid \<Rightarrow> 0 | Direct t p \<Rightarrow> size t
                                    | Indir t a \<Rightarrow> size t)") auto

fun Type_v :: "rvalue \<Rightarrow> panic + gtype" where
  "Type_v Invalid = Inl ReflectPanic"
| "Type_v (Direct t p) = Inr t"
| "Type_v (Indir t a) = Inr t"

section \<open>The accessor factory\<close>

text \<open>
  \<^verbatim>\<open>Accessor\<close>, the factory: the shape cache \<^verbatim>\<open>dict\<close> keyed by runtime type id (the
  lock \<^verbatim>\<open>rw\<close> has no sequential content) and the three options of part_001.
\<close>

record Accessor =
  dict :: "32 word \<Rightarrow> StructType option"
  groupBy :: "GroupByFunc option"
  iterator :: "IteratorFunc option"
  maxDeep :: int

text \<open>\<^verbatim>\<open>New()\<close> without options.\<close>

definition defaultAccessor :: Accessor where
  "defaultAccessor = \<lparr>dict = (\<lambda>_. None), groupBy = None, iterator = None, maxDeep = 16\<rparr>"

definition zeroStructField :: StructField where
  "zeroStructField = \<lparr>Name = [], Type = NoType, Offset = 0\<rparr>"

text \<open>
  \<^verbatim>\<open>(s *StructType) groupBy(fn)\<close>: a missing key of the Go map reads as the nil slice.
\<close>

fun groupLoop :: "GroupByFunc \<Rightarrow> FieldType list \<Rightarrow> (string \<Rightarrow> FieldType list) \<Rightarrow>
    (string \<Rightarrow> FieldType list)" where
  "groupLoop fn [] g = g"
| "groupLoop fn (field # rest) g =
     (case fn field of (grp, ok) \<Rightarrow>
        groupLoop fn rest (if ok then g(grp := g grp @ [field]) else g))"

definition groupBy_s :: "GroupByFunc \<Rightarrow> StructType \<Rightarrow> StructType" where
  "groupBy_s fn s = s\<lparr>fieldGroup := groupLoop fn (fields_s s) (\<lambda>_. [])\<rparr>"

text \<open>
  \<^verbatim>\<open>newStructType\<close>. The argument is read in the memory \<open>h\<close>. A nil pointer on the way
  to the struct leaves the zero Value, on which \<^verbatim>\<open>v.Type()\<close> panics. On a type that is
  not a struct \<^verbatim>\<open>structTyp.NumField()\<close> panics in the first call of \<^verbatim>\<open>traversalFields\<close>,
  unless its guard returns before. Both are \<open>Inl\<close> results.
\<close>

definition newStructType :: "tenv \<Rightarrow> Accessor \<Rightarrow> 32 word \<Rightarrow> heap \<Rightarrow> GoArg \<Rightarrow> panic + StructType" where
  "newStructType env a tid' h x =
     (case Type_v (DereferencePtrValue h (ValueOf x)) of
        Inl e \<Rightarrow> Inl e
      | Inr structTyp \<Rightarrow>
          if \<not> isStruct structTyp \<and> 0 < maxDeep a then Inl NotAStruct
          else
            let sTyp = \<lparr>tid = tid', fields_s = [], fieldGroup = (\<lambda>_. []), depth = 0,
                         tree = MkFieldType rootID [] 0 0 structTyp None zeroStructField,
                         children = (\<lambda>_. [])\<rparr>;
                sTyp' = traversalFields env (maxDeep a) (iterator a) (tree sTyp) sTyp
            in Inr (case groupBy a of None \<Rightarrow> sTyp' | Some fn \<Rightarrow> groupBy_s fn sTyp'))"

definition NumField :: "StructType \<Rightarrow> int" where
  "NumField s = int (length (fields_s s))"

definition checkID :: "StructType \<Rightarrow> int \<Rightarrow> bool" where
  "checkID s i = (i \<ge> 0 \<and> i < int (length (fields_s s)))"

text \<open>\<^verbatim>\<open>(s *StructType) FieldType(id)\<close>; \<open>None\<close> is the nil descriptor.\<close>

definition FieldType_s :: "StructType \<Rightarrow> int \<Rightarrow> FieldType option" where
  "FieldType_s s i = (if \<not> checkID s i then None else Some (fields_s s ! nat i))"

definition Parent :: "FieldType \<Rightarrow> FieldType option" where
  "Parent f = (case parent f of None \<Rightarrow> None
               | Some p \<Rightarrow> if id_f p = rootID then None else Some p)"

section \<open>Instances and lazy materialization\<close>

record Value =
  elemVal :: rvalue
  elemPtr :: nat

text \<open>
  \<^verbatim>\<open>Struct\<close>: the embedded \<^verbatim>\<open>*StructType\<close>, the bound instance and the resolved cache.
\<close>

record Struct =
  typ_s :: StructType
  value_s :: Value
  fieldValues :: "Value list"

definition zero_v :: rvalue where
  "zero_v = Invalid"

text \<open>
  Sizes: a pointer takes 8 bytes; the sizes of the other types are given by the host
  (\<open>sz\<close>).
\<close>

fun sizeOf :: "(gtype \<Rightarrow> nat) \<Rightarrow> gtype \<Rightarrow> nat" where
  "sizeOf sz (Ptr t) = 8"
| "sizeOf sz t = sz t"

definition NewAt :: "gtype \<Rightarrow> nat \<Rightarrow> rvalue" where
  "NewAt t p = Direct (Ptr t) p"

definition New :: "(gtype \<Rightarrow> nat) \<Rightarrow> gtype \<Rightarrow> heap \<Rightarrow> rvalue \<times> heap" where
  "New sz t h =
     (Direct (Ptr t) (brk h),
      h\<lparr>mem := (\<lambda>a. if brk h \<le> a \<and> a < brk h + sizeOf sz t then 0 else mem h a),
        brk := brk h + sizeOf sz t\<rparr>)"

text \<open>
  \<^verbatim>\<open>Pointer()\<close>, \<^verbatim>\<open>IsNil()\<close>, \<^verbatim>\<open>Elem()\<close> and \<^verbatim>\<open>Set()\<close> on values of pointer kind; on
  any other value they are modelled as a panic (the accessor calls them on pointers
  only). \<open>elemNew\<close> is \<^verbatim>\<open>reflect.New(v.Type().Elem())\<close>.
\<close>

fun Pointer :: "heap \<Rightarrow> rvalue \<Rightarrow> panic + nat" where
  "Pointer h (Direct (Ptr t) p) = Inr p"
| "Pointer h (Indir (Ptr t) a) = Inr (mem h a)"
| "Pointer h v = Inl ReflectPanic"

fun IsNil :: "heap \<Rightarrow> rvalue \<Rightarrow> panic + bool" where
  "IsNil h (Direct (Ptr t) p) = Inr (p = 0)"
| "IsNil h (Indir (Ptr t) a) = Inr (mem h a = 0)"
| "IsNil h v = Inl ReflectPanic"

fun Elem :: "heap \<Rightarrow> rvalue \<Rightarrow> panic + rvalue" where
  "Elem h (Direct (Ptr t) p) = Inr (if p = 0 then Invalid else Indir t p)"
| "Elem h (Indir (Ptr t) a) = Inr (if mem h a = 0 then Invalid else Indir t (mem h a))"
| "Elem h v = Inl ReflectPanic"

fun elemNew :: "(gtype \<Rightarrow> nat) \<Rightarrow> rvalue \<Rightarrow> heap \<Rightarrow> panic + rvalue \<times> heap" where
  "elemNew sz (Direct (Ptr t) p) h = Inr (New sz t h)"
| "elemNew sz (Indir (Ptr t) a) h = Inr (New sz t h)"
| "elemNew sz v h = Inl ReflectPanic"

fun Set_v :: "rvalue \<Rightarrow> rvalue \<Rightarrow> heap \<Rightarrow> panic + heap" where
  "Set_v (Indir t a) x h =
     (case Pointer h x of Inl e \<Rightarrow> Inl e | Inr p \<Rightarrow> Inr (h\<lparr>mem := (mem h)(a := p)\<rparr>))"
| "Set_v v x h = Inl ReflectPanic"

text \<open>
  The statement \<^verbatim>\<open>if v.IsNil() { v.Set(reflect.New(v.Type().Elem())) }\<close>, which
  \<^verbatim>\<open>derefPtrAndInit\<close> runs in its loop and once more after it.
\<close>

definition initIfNil :: "(gtype \<Rightarrow> nat) \<Rightarrow> rvalue \<Rightarrow> heap \<Rightarrow> panic + heap" where
  "initIfNil sz v h =
     (case IsNil h v of
        Inl e \<Rightarrow> Inl e
      | Inr isnil \<Rightarrow>
          if isnil then
            (case elemNew sz v h of Inl e \<Rightarrow> Inl e | Inr (x, h') \<Rightarrow> Set_v v x h')
          else Inr h)"

function derefPtrAndInit :: "(gtype \<Rightarrow> nat) \<Rightarrow> rvalue \<Rightarrow> int \<Rightarrow> heap \<Rightarrow> panic + rvalue \<times> heap" where
  "derefPtrAndInit sz v numPtr h =
     (if numPtr > 0 then
        (case initIfNil sz v h of
           Inl e \<Rightarrow> Inl e
         | Inr h1 \<Rightarrow>
             (case Elem h1 v of
                Inl e \<Rightarrow> Inl e
              | Inr v' \<Rightarrow> derefPtrAndInit sz v' (numPtr - 1) h1))
      else
        (case initIfNil sz v h of Inl e \<Rightarrow> Inl e | Inr h1 \<Rightarrow> Inr (v, h1)))"
  by pat_completeness auto

termination derefPtrAndInit
  by (relation "measure (\<lambda>(sz, v, numPtr, h). nat numPtr)") auto

declare derefPtrAndInit.simps [simp del]

text \<open>
  \<^verbatim>\<open>(f *FieldType) init(s *Struct)\<close>. The accessor is updated in place, so the function
  returns it with the memory. An index outside \<^verbatim>\<open>s.fieldValues\<close> is Go's run-time panic.
\<close>

fun init :: "(gtype \<Rightarrow> nat) \<Rightarrow> FieldType \<Rightarrow> Struct \<times> heap \<Rightarrow> panic + Value \<times> Struct \<times> heap" where
  "init sz (MkFieldType i sel d pn et None sf) (s, h) = Inr (value_s s, s, h)"
| "init sz (MkFieldType i sel d pn et (Some p) sf) (s, h) =
     (if \<not> (0 \<le> i \<and> i < int (length (fieldValues s))) then Inl IndexOutOfRange
      else if elemPtr (fieldValues s ! nat i) > 0 then Inr (fieldValues s ! nat i, s, h)
      else
        (case init sz p (s, h) of
           Inl e \<Rightarrow> Inl e
         | Inr (pVal, s1, h1) \<Rightarrow>
             (case (if pn > 0
                    then derefPtrAndInit sz (NewAt (Type sf) (elemPtr pVal + Offset sf)) pn h1
                    else Inr (NewAt (Type sf) (elemPtr pVal + Offset sf), h1)) of
                Inl e \<Rightarrow> Inl e
              | Inr (valPtr, h2) \<Rightarrow>
                  (case Elem h2 valPtr of
                     Inl e \<Rightarrow> Inl e
                   | Inr ev \<Rightarrow>
                       (case Pointer h2 valPtr of
                          Inl e \<Rightarrow> Inl e
                        | Inr ep \<Rightarrow>
                            if \<not> i < int (length (fieldValues s1)) then Inl IndexOutOfRange
                            else Inr (\<lparr>elemVal = ev, elemPtr = ep\<rparr>,
                                      s1\<lparr>fieldValues :=
                                           (fieldValues s1)[nat i := \<lparr>elemVal = ev, elemPtr = ep\<rparr>]\<rparr>,
                                      h2))))))"

definition newStruct :: "StructType \<Rightarrow> nat \<Rightarrow> Struct" where
  "newStruct typ elemPtr' =
     \<lparr>typ_s = typ, value_s = \<lparr>elemVal = Invalid, elemPtr = elemPtr'\<rparr>,
      fieldValues = replicate (length (fields_s typ)) \<lparr>elemVal = Invalid, elemPtr = 0\<rparr>\<rparr>"

definition FieldValue :: "(gtype \<Rightarrow> nat) \<Rightarrow> int \<Rightarrow> Struct \<times> heap \<Rightarrow> panic + rvalue \<times> Struct \<times> heap" where
  "FieldValue sz i st =
     (case st of (s, h) \<Rightarrow>
        if \<not> checkID (typ_s s) i then Inr (zero_v, s, h)
        else if \<not> i < int (length (fieldValues s)) then Inl IndexOutOfRange
        else if elemPtr (fieldValues s ! nat i) > 0 then Inr (elemVal (fieldValues s ! nat i), s, h)
        else (case init sz (fields_s (typ_s s) ! nat i) (s, h) of
                Inl e \<Rightarrow> Inl e
              | Inr (v, s', h') \<Rightarrow> Inr (elemVal v, s', h')))"

definition Field_s :: "(gtype \<Rightarrow> nat) \<Rightarrow> int \<Rightarrow> Struct \<times> heap \<Rightarrow>
    panic + (FieldType option \<times> rvalue) \<times> Struct \<times> heap" where
  "Field_s sz i st =
     (case st of (s, h) \<Rightarrow>
        if \<not> checkID (typ_s s) i then Inr ((None, zero_v), s, h)
        else if \<not> i < int (length (fieldValues s)) then Inl IndexOutOfRange
        else if elemPtr (fieldValues s ! nat i) > 0
          then Inr ((Some (fields_s (typ_s s) ! nat i), elemVal (fieldValues s ! nat i)), s, h)
        else (case init sz (fields_s (typ_s s) ! nat i) (s, h) of
                Inl e \<Rightarrow> Inl e
              | Inr (v, s', h') \<Rightarrow> Inr ((Some (fields_s (typ_s s) ! nat i), elemVal v), s', h')))"

text \<open>
  \<^verbatim>\<open>Range\<close>. The callback may write to memory; it is a function of the descriptor, the
  view and the memory. Next to the final accessor and memory the model returns the list
  of the callback's invocations with their answers, in the order they were made.
\<close>

type_synonym callback = "FieldType \<Rightarrow> rvalue \<Rightarrow> heap \<Rightarrow> bool \<times> heap"
type_synonym trace = "(FieldType \<times> rvalue \<times> bool) list"

fun RangeLoop :: "(gtype \<Rightarrow> nat) \<Rightarrow> callback \<Rightarrow> int \<Rightarrow> FieldType list \<Rightarrow> Struct \<times> heap \<Rightarrow>
    panic + trace \<times> Struct \<times> heap" where
  "RangeLoop sz fn i [] (s, h) = Inr ([], s, h)"
| "RangeLoop sz fn i (t # rest) (s, h) =
     (if \<not> i < int (length (fieldValues s)) then Inl IndexOutOfRange
      else
        (case (if elemPtr (fieldValues s ! nat i) > 0
               then Inr (fieldValues s ! nat i, s, h) else init sz t (s, h)) of
           Inl e \<Rightarrow> Inl e
         | Inr (v, s1, h1) \<Rightarrow>
             (case fn t (elemVal v) h1 of
                (ok, h2) \<Rightarrow>
                  if \<not> ok then Inr ([(t, elemVal v, False)], s1, h2)
                  else
                    (case RangeLoop sz fn (i + 1) rest (s1, h2) of
                       Inl e \<Rightarrow> Inl e
                     | Inr (tr, s', h') \<Rightarrow> Inr ((t, elemVal v, True) # tr, s', h')))))"

definition Range_s :: "(gtype \<Rightarrow> nat) \<Rightarrow> callback \<Rightarrow> Struct \<times> heap \<Rightarrow> panic + trace \<times> Struct \<times> heap" where
  "Range_s sz fn st = RangeLoop sz fn 0 (fields_s (typ_s (fst st))) st"

definition GroupTypes :: "StructType \<Rightarrow> string \<Rightarrow> FieldType list" where
  "GroupTypes s grp = fieldGroup s grp"

fun GroupValuesLoop :: "(gtype \<Rightarrow> nat) \<Rightarrow> FieldType list \<Rightarrow> Struct \<times> heap \<Rightarrow>
    panic + rvalue list \<times> Struct \<times> heap" where
  "GroupValuesLoop sz [] (s, h) = Inr ([], s, h)"
| "GroupValuesLoop sz (ft # rest) (s, h) =
     (if \<not> (0 \<le> id_f ft \<and> id_f ft < int (length (fieldValues s))) then Inl IndexOutOfRange
      else
        (case (if elemPtr (fieldValues s ! nat (id_f ft)) > 0
               then Inr (fieldValues s ! nat (id_f ft), s, h) else init sz ft (s, h)) of
           Inl e \<Rightarrow> Inl e
         | Inr (v, s1, h1) \<Rightarrow>
             (case GroupValuesLoop sz rest (s1, h1) of
                Inl e \<Rightarrow> Inl e
              | Inr (r, s', h') \<Rightarrow> Inr (elemVal v # r, s', h'))))"

definition GroupValues :: "(gtype \<Rightarrow> nat) \<Rightarrow> string \<Rightarrow> Struct \<times> heap \<Rightarrow>
    panic + rvalue list \<times> Struct \<times> heap" where
  "GroupValues sz grp st = GroupValuesLoop sz (GroupTypes (typ_s (fst st)) grp) st"

text \<open>
  The operations of a bound accessor that touch its resolved cache.
\<close>

datatype operation = OpFieldValue int | OpField int | OpRange callback | OpGroupValues string

fun perform :: "(gtype \<Rightarrow> nat) \<Rightarrow> operation \<Rightarrow> Struct \<times> heap \<Rightarrow> panic + Struct \<times> heap" where
  "perform sz (OpFieldValue i) st = map_sum id snd (FieldValue sz i st)"
| "perform sz (OpField i) st = map_sum id snd (Field_s sz i st)"
| "perform sz (OpRange fn) st = map_sum id snd (Range_s sz fn st)"
| "perform sz (OpGroupValues grp) st = map_sum id snd (GroupValues sz grp st)"

section \<open>Binding an instance\<close>

datatype error = errTypeMismatch | errIllegalType

fun isStructPtr :: "gtype \<Rightarrow> bool" where
  "isStructPtr (Ptr (Struct n)) = True"
| "isStructPtr t = False"

text \<open>
  Modelled from the spec: \<^verbatim>\<open>parseStructInfo\<close> and \<^verbatim>\<open>parseStructInfoWithCheck\<close> are called
  by access.go and defined in no file under src. They return the runtime type id and
  the address of the argument; the checked variant fails with \<^verbatim>\<open>errIllegalType\<close> when
  ``the argument is not a pointer to a composite record'' (sections 6 and 7). The older
  \<^verbatim>\<open>Prepare\<close> of part_000 makes the same test in line:
  \<^verbatim>\<open>val.Kind() != reflect.Ptr || val.Elem().Kind() != reflect.Struct\<close>.
\<close>

definition parseStructInfo :: "GoArg \<Rightarrow> 32 word \<times> nat" where
  "parseStructInfo x = (argTid x, argPtr x)"

definition parseStructInfoWithCheck :: "GoArg \<Rightarrow> error + 32 word \<times> nat" where
  "parseStructInfoWithCheck x =
     (if \<not> isStructPtr (argTyp x) then Inl errIllegalType else Inr (parseStructInfo x))"

definition load :: "Accessor \<Rightarrow> 32 word \<Rightarrow> StructType option" where
  "load a tid' = dict a tid'"

definition store :: "Accessor \<Rightarrow> StructType \<Rightarrow> Accessor" where
  "store a sTyp = a\<lparr>dict := (dict a)(tid sTyp := Some sTyp)\<rparr>"

definition analyze :: "tenv \<Rightarrow> Accessor \<Rightarrow> 32 word \<Rightarrow> heap \<Rightarrow> GoArg \<Rightarrow>
    panic + StructType \<times> Accessor" where
  "analyze env a tid' h x =
     (case load a tid' of
        Some sTyp \<Rightarrow> Inr (sTyp, a)
      | None \<Rightarrow>
          (case newStructType env a tid' h x of
             Inl e \<Rightarrow> Inl e
           | Inr sTyp \<Rightarrow> Inr (sTyp, store a sTyp)))"

definition Analyze :: "tenv \<Rightarrow> Accessor \<Rightarrow> heap \<Rightarrow> GoArg \<Rightarrow>
    panic + (error + StructType \<times> Accessor)" where
  "Analyze env a h x =
     (case parseStructInfoWithCheck x of
        Inl err \<Rightarrow> Inr (Inl err)
      | Inr (tid', ptr) \<Rightarrow> map_sum id Inr (analyze env a tid' h x))"

definition Access :: "tenv \<Rightarrow> Accessor \<Rightarrow> heap \<Rightarrow> GoArg \<Rightarrow>
    panic + (error + Struct \<times> Accessor)" where
  "Access env a h x =
     (case parseStructInfoWithCheck x of
        Inl err \<Rightarrow> Inr (Inl err)
      | Inr (tid', ptr) \<Rightarrow>
          (case load a tid' of
             Some sTyp \<Rightarrow> Inr (Inr (newStruct sTyp ptr, a))
           | None \<Rightarrow>
               (case newStructType env a tid' h x of
                  Inl e \<Rightarrow> Inl e
                | Inr sTyp \<Rightarrow> Inr (Inr (newStruct sTyp ptr, store a sTyp)))))"

text \<open>
  \<^verbatim>\<open>(s *StructType) Access(structPtr)\<close>.
\<close>

definition Access_s :: "StructType \<Rightarrow> GoArg \<Rightarrow> error + Struct" where
  "Access_s s x =
     (case parseStructInfo x of
        (tid', ptr) \<Rightarrow> if tid s \<noteq> tid' then Inl errTypeMismatch else Inr (newStruct s ptr))"

section \<open>A running example: the types of the repository's benchmark\<close>

text \<open>
  \<^verbatim>\<open>P1{A int; b int; P2}\<close>, \<^verbatim>\<open>P2{C int; d int; *P3}\<close>, \<^verbatim>\<open>P3{E int; f *int; g **int}\<close>
  as struct types 0, 1 and 2, with the offsets of a 64-bit platform.
\<close>

definition envP1 :: tenv where
  "envP1 n =
     (if n = 0 then [\<lparr>Name = ''A'', Type = Other ''int'', Offset = 0\<rparr>,
                     \<lparr>Name = ''b'', Type = Other ''int'', Offset = 8\<rparr>,
                     \<lparr>Name = ''P2'', Type = Struct 1, Offset = 16\<rparr>]
      else if n = 1 then [\<lparr>Name = ''C'', Type = Other ''int'', Offset = 0\<rparr>,
                     \<lparr>Name = ''d'', Type = Other ''int'', Offset = 8\<rparr>,
                     \<lparr>Name = ''P3'', Type = Ptr (Struct 2), Offset = 16\<rparr>]
      else if n = 2 then [\<lparr>Name = ''E'', Type = Other ''int'', Offset = 0\<rparr>,
                     \<lparr>Name = ''f'', Type = Ptr (Other ''int''), Offset = 8\<rparr>,
                     \<lparr>Name = ''g'', Type = Ptr (Ptr (Other ''int'')), Offset = 16\<rparr>]
      else [])"

definition shapeP1 :: StructType where
  "shapeP1 = traversalFields envP1 16 None
     (MkFieldType rootID [] 0 0 (Struct 0) None zeroStructField)
     \<lparr>tid = 1, fields_s = [], fieldGroup = (\<lambda>_. []), depth = 0,
      tree = MkFieldType rootID [] 0 0 (Struct 0) None zeroStructField,
      children = (\<lambda>_. [])\<rparr>"

text \<open>
  Two sibling composite members: \<^verbatim>\<open>R{X S1; Y S2}\<close>, \<^verbatim>\<open>S1{a int}\<close>, \<^verbatim>\<open>S2{b int}\<close> as struct
  types 0, 1 and 2.
\<close>

definition envXY :: tenv where
  "envXY n =
     (if n = 0 then [\<lparr>Name = ''X'', Type = Struct 1, Offset = 0\<rparr>,
                     \<lparr>Name = ''Y'', Type = Struct 2, Offset = 8\<rparr>]
      else if n = 1 then [\<lparr>Name = ''a'', Type = Other ''int'', Offset = 0\<rparr>]
      else if n = 2 then [\<lparr>Name = ''b'', Type = Other ''int'', Offset = 0\<rparr>]
      else [])"

definition rootXY :: FieldType where
  "rootXY = MkFieldType rootID [] 0 0 (Struct 0) None zeroStructField"

definition emptyXY :: StructType where
  "emptyXY = \<lparr>tid = 2, fields_s = [], fieldGroup = (\<lambda>_. []), depth = 0,
              tree = rootXY, children = (\<lambda>_. [])\<rparr>"

definition shapeXY :: StructType where
  "shapeXY = traversalFields envXY 16 None rootXY emptyXY"

text \<open>An instance of \<^verbatim>\<open>R\<close> at address 64 and the argument that points to it.\<close>

definition heapXY :: heap where
  "heapXY = \<lparr>mem = (\<lambda>_. 0), brk = 80\<rparr>"

definition argXY :: GoArg where
  "argXY = \<lparr>argTid = 2, argTyp = Ptr (Struct 0), argPtr = 64\<rparr>"

text \<open>
  The pre-order enumeration of a descriptor tree, as the claim C3 words it: each field is
  immediately followed by its sub-fields, before any later sibling. The first argument
  bounds the nesting.
\<close>

fun preorder :: "nat \<Rightarrow> (int \<Rightarrow> FieldType list) \<Rightarrow> FieldType list \<Rightarrow> FieldType list" where
  "preorder 0 ch fs = []"
| "preorder (Suc k) ch [] = []"
| "preorder (Suc k) ch (f # fs) = f # preorder k ch (ch (id_f f)) @ preorder (Suc k) ch fs"

text \<open>Policy functions that single out one member by its declared name.\<close>

definition policyAt :: "string \<Rightarrow> IterPolicy \<Rightarrow> IteratorFunc" where
  "policyAt name p f = (if Name (StructField f) = name then p else Take)"

text \<open>
  An instance of \<^verbatim>\<open>P1\<close> at address 64 whose pointers are all nil, in a memory
  allocated up to 104, and the argument that points to it.
\<close>

definition heapP1 :: heap where
  "heapP1 = \<lparr>mem = (\<lambda>_. 0), brk = 104\<rparr>"

definition argP1 :: GoArg where
  "argP1 = \<lparr>argTid = 1, argTyp = Ptr (Struct 0), argPtr = 64\<rparr>"

definition analyzeP1 :: "IteratorFunc \<Rightarrow> panic + StructType" where
  "analyzeP1 fn = newStructType envP1 (defaultAccessor\<lparr>iterator := Some fn\<rparr>) 1 heapP1 argP1"

definition selectorsOf :: "panic + StructType \<Rightarrow> string list" where
  "selectorsOf r = (case r of Inl e \<Rightarrow> [] | Inr s \<Rightarrow> map selector (fields_s s))"

text \<open>
  The sizes of the benchmark's types and the fresh accessor of the instance at 64.
\<close>

definition szP1 :: "gtype \<Rightarrow> nat" where
  "szP1 t = (case t of Struct n \<Rightarrow> (if n = 0 then 40 else 24) | _ \<Rightarrow> 8)"

definition structP1 :: Struct where
  "structP1 = newStruct shapeP1 64"

text \<open>
  An argument that is no pointer, and a nil \<^verbatim>\<open>*P1\<close>.
\<close>

definition argInt :: GoArg where
  "argInt = \<lparr>argTid = 9, argTyp = Other ''int'', argPtr = 0\<rparr>"

definition argNil :: GoArg where
  "argNil = \<lparr>argTid = 1, argTyp = Ptr (Struct 0), argPtr = 0\<rparr>"

definition stopAt3 :: callback where
  "stopAt3 t v h = (id_f t < 3, h)"

section \<open>The level order of the flat list\<close>

text \<open>
  The order in which the analyzer lists the fields, stated on lists alone.
  \<open>descriptor par d n f\<close> is the descriptor of the declared member \<open>f\<close> of the record of
  \<open>par\<close>, listed as field number \<open>n\<close> by expansion number \<open>d\<close>.
  \<open>levelSpec iter par d n ms\<close> goes through the declared members \<open>ms\<close> in declaration
  order and returns the included ones, numbered from \<open>n\<close>, and those among them that are
  queued for expansion. A member is included unless its policy is \<^verbatim>\<open>Skip\<close> or
  \<^verbatim>\<open>SkipAndStop\<close>; an included member whose element type is a struct is queued unless its
  policy is \<^verbatim>\<open>SkipOffspring\<close> or \<^verbatim>\<open>SkipOffspringAndStop\<close>; after a member whose policy
  is \<^verbatim>\<open>TakeAndStop\<close>, \<^verbatim>\<open>SkipOffspringAndStop\<close> or \<^verbatim>\<open>SkipAndStop\<close> no later member is
  looked at. Without a policy function every member has the policy \<^verbatim>\<open>Take\<close>.
\<close>

definition descriptor :: "FieldType \<Rightarrow> int \<Rightarrow> nat \<Rightarrow> StructField \<Rightarrow> FieldType" where
  "descriptor par d n f =
     MkFieldType (int n) (selector par @ ''.'' @ Name f) d
       (snd (derefType (Type f) 0)) (fst (derefType (Type f) 0)) (Some par) f"

fun levelSpec :: "IteratorFunc option \<Rightarrow> FieldType \<Rightarrow> int \<Rightarrow> nat \<Rightarrow> StructField list \<Rightarrow>
    FieldType list \<times> FieldType list" where
  "levelSpec iter par d n [] = ([], [])"
| "levelSpec iter par d n (f # rest) =
     (let x = descriptor par d n f;
          p = (case iter of None \<Rightarrow> Take | Some fn \<Rightarrow> fn x);
          included = (p \<noteq> Skip \<and> p \<noteq> SkipAndStop);
          queued = (included \<and> p \<noteq> SkipOffspring \<and> p \<noteq> SkipOffspringAndStop
                    \<and> isStruct (elemTyp x));
          halt = (p = TakeAndStop \<or> p = SkipOffspringAndStop \<or> p = SkipAndStop);
          later = (if halt then ([], [])
                   else levelSpec iter par d (if included then n + 1 else n) rest)
      in ((if included then [x] else []) @ fst later, (if queued then [x] else []) @ snd later))"

text \<open>
  \<open>levelBlock env m iter par (d, n) B (d', n')\<close>: \<open>B\<close> is the block of the expansion of
  \<open>par\<close> that starts after \<open>d\<close> expansions and \<open>n\<close> listed fields and ends after \<open>d'\<close>
  expansions and \<open>n'\<close> listed fields. The block is empty when the ceiling \<open>m\<close> is reached.
  Otherwise it is the level of \<open>par\<close>, that is the included members of its record,
  followed by the blocks of the queued members, one whole block after the other in
  queue order (\<open>levelBlocks\<close>).
\<close>

inductive levelBlock :: "tenv \<Rightarrow> int \<Rightarrow> IteratorFunc option \<Rightarrow> FieldType \<Rightarrow> int \<times> nat \<Rightarrow>
      FieldType list \<Rightarrow> int \<times> nat \<Rightarrow> bool"
  and levelBlocks :: "tenv \<Rightarrow> int \<Rightarrow> IteratorFunc option \<Rightarrow> FieldType list \<Rightarrow> int \<times> nat \<Rightarrow>
      FieldType list \<Rightarrow> int \<times> nat \<Rightarrow> bool"
  for env :: tenv and m :: int and iter :: "IteratorFunc option"
where
  ceiling: "m \<le> d \<Longrightarrow> levelBlock env m iter par (d, n) [] (d, n)"
| level: "d < m \<Longrightarrow> levelSpec iter par (d + 1) n (structMembers env (elemTyp par)) = (L, Q) \<Longrightarrow>
          levelBlocks env m iter Q (d + 1, n + length L) R c \<Longrightarrow>
          levelBlock env m iter par (d, n) (L @ R) c"
| empty: "levelBlocks env m iter [] c [] c"
| queue: "levelBlock env m iter q c B c' \<Longrightarrow> levelBlocks env m iter Q c' R c'' \<Longrightarrow>
         levelBlocks env m iter (q # Q) c (B @ R) c''"

inductive_cases levelBlockE: "levelBlock env m iter par (d, n) B c"
inductive_cases levelBlocks_NilE: "levelBlocks env m iter [] c R c'"
inductive_cases levelBlocks_ConsE: "levelBlocks env m iter (q # Q) c R c'"

section \<open>Well-formed shapes\<close>

text \<open>
  \<open>chainOK n f\<close>: along the parent links from \<open>f\<close> up to a descriptor without parent (the
  tree root), every id lies in \<open>[0, n)\<close> and is larger than the id of its parent, and the
  element type and pointer depth are those of the declared type.
  \<open>names f\<close> are the declared member names from the root down to \<open>f\<close>.
\<close>

fun chainOK :: "nat \<Rightarrow> FieldType \<Rightarrow> bool" where
  "chainOK n (MkFieldType i sel d pn et None sf) = True"
| "chainOK n (MkFieldType i sel d pn et (Some p) sf) =
     (0 \<le> i \<and> i < int n \<and> id_f p < i \<and> derefType (Type sf) 0 = (et, pn) \<and> chainOK n p)"

fun names :: "FieldType \<Rightarrow> string list" where
  "names (MkFieldType i sel d pn et None sf) = []"
| "names (MkFieldType i sel d pn et (Some p) sf) = names p @ [Name sf]"

definition dotted :: "string list \<Rightarrow> string" where
  "dotted ns = concat (map (\<lambda>n. ''.'' @ n) ns)"

definition goodField :: "nat \<Rightarrow> FieldType \<Rightarrow> bool" where
  "goodField n f = (chainOK n f \<and> selector f = dotted (names f))"

definition shapeInv :: "StructType \<Rightarrow> bool" where
  "shapeInv s = (id_f (tree s) = rootID \<and> parent (tree s) = None \<and> selector (tree s) = []
     \<and> (\<forall>i < length (fields_s s). id_f (fields_s s ! i) = int i)
     \<and> (\<forall>f \<in> set (fields_s s). goodField (length (fields_s s)) f
           \<and> (\<exists>p. parent f = Some p \<and> (p = tree s \<or> p \<in> set (fields_s s)))))"

definition goodParent :: "StructType \<Rightarrow> FieldType \<Rightarrow> bool" where
  "goodParent s p = (goodField (length (fields_s s)) p \<and> id_f p < int (length (fields_s s))
     \<and> (p = tree s \<or> p \<in> set (fields_s s)))"

fun layers :: "gtype \<Rightarrow> nat" where
  "layers (Ptr t) = Suc (layers t)"
| "layers t = 0"

fun stripAll :: "gtype \<Rightarrow> gtype" where
  "stripAll (Ptr t) = stripAll t"
| "stripAll t = t"

text \<open>
  \<open>keeps s s'\<close>: the accessor \<open>s'\<close> has the shape, the instance and every populated
  cache slot of \<open>s\<close>.
\<close>

definition keeps :: "Struct \<Rightarrow> Struct \<Rightarrow> bool" where
  "keeps s s' = (typ_s s' = typ_s s \<and> value_s s' = value_s s
     \<and> length (fieldValues s') = length (fieldValues s)
     \<and> (\<forall>j < length (fieldValues s). 0 < elemPtr (fieldValues s ! j) \<longrightarrow>
            fieldValues s' ! j = fieldValues s ! j))"

text \<open>
  What \<^verbatim>\<open>Range\<close> does on the fields \<open>ts\<close> of ids \<open>i0, i0 + 1, ...\<close>: the invocations
  \<open>tr\<close> are on a prefix of \<open>ts\<close>, each on a field whose slot is populated and holds the
  view passed to the callback; every answer but the last is true, and the last is false
  if the prefix is proper; the slots of the fields beyond the prefix are untouched.
\<close>

definition rangeSpec :: "nat \<Rightarrow> FieldType list \<Rightarrow> Struct \<Rightarrow> trace \<Rightarrow> Struct \<Rightarrow> bool" where
  "rangeSpec i0 ts s tr s' =
     (length tr \<le> length ts
      \<and> (\<forall>k < length tr. fst (tr ! k) = ts ! k
             \<and> 0 < elemPtr (fieldValues s' ! (i0 + k))
             \<and> elemVal (fieldValues s' ! (i0 + k)) = fst (snd (tr ! k)))
      \<and> (\<forall>k. Suc k < length tr \<longrightarrow> snd (snd (tr ! k)))
      \<and> (length tr < length ts \<longrightarrow> tr \<noteq> [] \<and> \<not> snd (snd (last tr)))
      \<and> (\<forall>j. i0 + length tr \<le> j \<longrightarrow> fieldValues s' ! j = fieldValues s ! j))"

text \<open>
  Reading a field from the root instance without the accessor: \<open>chase h a n\<close> follows
  \<open>n\<close> pointers from the cell at \<open>a\<close> and fails at a nil one; \<open>locate h root f\<close> is the
  address of the value of \<open>f\<close>, found from the instance at \<open>root\<close> by adding the offsets and
  following the pointers of \<open>f\<close> and its ancestors.
\<close>

fun chase :: "heap \<Rightarrow> nat \<Rightarrow> nat \<Rightarrow> nat option" where
  "chase h a 0 = Some a"
| "chase h a (Suc n) = (if mem h a = 0 then None else chase h (mem h a) n)"

fun locate :: "heap \<Rightarrow> nat \<Rightarrow> FieldType \<Rightarrow> nat option" where
  "locate h root (MkFieldType i sel d pn et None sf) = Some root"
| "locate h root (MkFieldType i sel d pn et (Some p) sf) =
     (case locate h root p of None \<Rightarrow> None | Some pa \<Rightarrow> chase h (pa + Offset sf) (nat pn))"

text \<open>
  \<open>chainUnder b h a n\<close> and \<open>pathUnder b h root f\<close>: the pointer cells that \<open>chase\<close> and
  \<open>locate\<close> read lie below the address \<open>b\<close>. With \<open>b = brk h\<close> this says that the
  instance, as far as the path to \<open>f\<close> reaches into it, is allocated memory.
\<close>

fun chainUnder :: "nat \<Rightarrow> heap \<Rightarrow> nat \<Rightarrow> nat \<Rightarrow> bool" where
  "chainUnder b h a 0 = True"
| "chainUnder b h a (Suc n) = (a < b \<and> (mem h a = 0 \<or> chainUnder b h (mem h a) n))"

fun pathUnder :: "nat \<Rightarrow> heap \<Rightarrow> nat \<Rightarrow> FieldType \<Rightarrow> bool" where
  "pathUnder b h root (MkFieldType i sel d pn et None sf) = True"
| "pathUnder b h root (MkFieldType i sel d pn et (Some p) sf) =
     (pathUnder b h root p \<and>
      (case locate h root p of None \<Rightarrow> True
       | Some pa \<Rightarrow> chainUnder b h (pa + Offset sf) (nat pn)))"

text \<open>
  \<open>layoutOK sz f\<close>: \<open>f\<close> and each of its ancestors lies inside the record that contains
  it. \<open>coherent s h f\<close>: a populated slot of \<open>f\<close> or of one of its ancestors holds the
  address that \<open>locate\<close> finds.
\<close>

fun layoutOK :: "(gtype \<Rightarrow> nat) \<Rightarrow> FieldType \<Rightarrow> bool" where
  "layoutOK sz (MkFieldType i sel d pn et None sf) = True"
| "layoutOK sz (MkFieldType i sel d pn et (Some p) sf) =
     (Offset sf + sizeOf sz (Type sf) \<le> sizeOf sz (elemTyp p) \<and> layoutOK sz p)"

fun coherent :: "Struct \<Rightarrow> heap \<Rightarrow> FieldType \<Rightarrow> bool" where
  "coherent s h (MkFieldType i sel d pn et None sf) = True"
| "coherent s h (MkFieldType i sel d pn et (Some p) sf) =
     (coherent s h p \<and>
      (0 < elemPtr (fieldValues s ! nat i) \<longrightarrow>
         locate h (elemPtr (value_s s)) (MkFieldType i sel d pn et (Some p) sf)
           = Some (elemPtr (fieldValues s ! nat i))))"

text \<open>
  \<open>extends h h'\<close>: the frontier has not moved back, and a cell below the old frontier
  either is unchanged or was nil and now points into newly allocated memory.
  \<open>zeroed h q n\<close>: the \<open>n\<close> cells from \<open>q\<close> are zero. \<open>poke h q w\<close> writes \<open>w\<close> at \<open>q\<close>.
\<close>

definition extends :: "heap \<Rightarrow> heap \<Rightarrow> bool" where
  "extends h h' = (brk h \<le> brk h' \<and>
     (\<forall>x < brk h. mem h' x = mem h x \<or> (mem h x = 0 \<and> brk h \<le> mem h' x)))"

definition zeroed :: "heap \<Rightarrow> nat \<Rightarrow> nat \<Rightarrow> bool" where
  "zeroed h q n = (\<forall>x. q \<le> x \<and> x < q + n \<longrightarrow> mem h x = 0)"

definition poke :: "heap \<Rightarrow> nat \<Rightarrow> nat \<Rightarrow> heap" where
  "poke h q w = h\<lparr>mem := (mem h)(q := w)\<rparr>"

text \<open>
  What \<^verbatim>\<open>derefPtrAndInit\<close> and \<^verbatim>\<open>init\<close> achieve, from memory \<open>h\<close> to \<open>h'\<close>: the
  chain (the path) is complete and ends at the returned address; memory is extended;
  if no pointer was nil nothing changed; and if one was, the target is a new zeroed
  block above every cell of the chain (the path).
\<close>

definition derefPost :: "(gtype \<Rightarrow> nat) \<Rightarrow> gtype \<Rightarrow> nat \<Rightarrow> nat \<Rightarrow> heap \<Rightarrow> nat \<Rightarrow> heap \<Rightarrow> bool" where
  "derefPost sz E c0 n h c h' =
     (0 < mem h' c \<and> chase h' c0 n = Some (mem h' c)
      \<and> extends h h'
      \<and> chainUnder (brk h') h' c0 n
      \<and> (chase h c0 n \<noteq> None \<longrightarrow> h' = h)
      \<and> (chase h c0 n = None \<longrightarrow>
           brk h \<le> mem h' c \<and> mem h' c + sizeOf sz E \<le> brk h'
           \<and> zeroed h' (mem h' c) (sizeOf sz E)
           \<and> chainUnder (mem h' c) h' c0 n))"

definition initPost :: "(gtype \<Rightarrow> nat) \<Rightarrow> nat \<Rightarrow> FieldType \<Rightarrow> heap \<Rightarrow> Value \<Rightarrow> heap \<Rightarrow> bool" where
  "initPost sz root f h v h' =
     (0 < elemPtr v \<and> locate h' root f = Some (elemPtr v)
      \<and> extends h h'
      \<and> pathUnder (brk h') h' root f
      \<and> (locate h root f \<noteq> None \<longrightarrow> h' = h)
      \<and> (locate h root f = None \<longrightarrow>
           brk h \<le> elemPtr v \<and> elemPtr v + sizeOf sz (elemTyp f) \<le> brk h'
           \<and> zeroed h' (elemPtr v) (sizeOf sz (elemTyp f))
           \<and> pathUnder (elemPtr v) h' root f
           \<and> elemVal v = Indir (elemTyp f) (elemPtr v)))"

text \<open>
  A stale cache. The accessor of the instance at 64 has resolved \<^verbatim>\<open>P2.P3\<close> (field 5), which
  allocated a \<^verbatim>\<open>P3\<close> at 104 and stored its address in the pointer cell 96; the program has
  then assigned \<^verbatim>\<open>p.P2.P3 = nil\<close>, which clears the cell 96. \<open>rootReads r q w root f\<close> is
  what a walk from the root instance to \<open>f\<close> finds after the resolution \<open>r\<close> and a write of
  \<open>w\<close> at \<open>q\<close>.
\<close>

definition staleP1 :: "Struct \<times> heap" where
  "staleP1 = (case FieldValue szP1 5 (structP1, heapP1) of
                Inl e \<Rightarrow> (structP1, heapP1)
              | Inr (v, s, h) \<Rightarrow> (s, poke h 96 0))"

definition rootReads :: "panic + rvalue \<times> Struct \<times> heap \<Rightarrow> nat \<Rightarrow> nat \<Rightarrow> nat \<Rightarrow> FieldType \<Rightarrow>
    nat option" where
  "rootReads r q w root f =
     (case r of Inl e \<Rightarrow> None | Inr (v, s, h) \<Rightarrow> locate (poke h q w) root f)"

section \<open>The analyzer keeps shapes well formed\<close>

lemma chainOK_mono: "chainOK n f \<Longrightarrow> n \<le> m \<Longrightarrow> chainOK m f"
  by (induction n f rule: chainOK.induct) auto

lemma goodField_mono: "goodField n f \<Longrightarrow> n \<le> m \<Longrightarrow> goodField m f"
  by (auto simp: goodField_def intro: chainOK_mono)

lemma shapeInv_takeField:
  assumes "shapeInv s" "goodParent s par" "derefType (Type f) 0 = (et, pn)"
  shows "shapeInv (takeField par (MkFieldType (int (length (fields_s s)))
            (joinFieldName (selector par) (Name f)) d pn et (Some par) f) s)"
proof -
  let ?n = "length (fields_s s)"
  let ?fld = "MkFieldType (int ?n) (joinFieldName (selector par) (Name f)) d pn et (Some par) f"
  have g: "goodField (Suc ?n) ?fld"
    using assms(2,3) by (auto simp: goodParent_def goodField_def joinFieldName_def dotted_def intro: chainOK_mono)
  have old: "\<forall>x \<in> set (fields_s s). goodField (Suc ?n) x"
    using assms(1) by (auto simp: shapeInv_def intro: goodField_mono)
  show ?thesis
    using assms g old by (auto simp: shapeInv_def goodParent_def takeField_def nth_append)
qed

lemma goodParent_takeField:
  "goodParent s p \<Longrightarrow> goodParent (takeField par field s) p"
  by (auto simp: goodParent_def takeField_def intro: goodField_mono)

lemma goodParent_new:
  assumes "goodParent s par" "derefType (Type f) 0 = (et, pn)"
  shows "goodParent (takeField par (MkFieldType (int (length (fields_s s)))
            (joinFieldName (selector par) (Name f)) d pn et (Some par) f) s)
          (MkFieldType (int (length (fields_s s)))
            (joinFieldName (selector par) (Name f)) d pn et (Some par) f)"
  using assms by (auto simp: goodParent_def goodField_def takeField_def joinFieldName_def dotted_def intro: chainOK_mono)

lemma visit_inv:
  assumes "shapeInv s" "goodParent s par" "\<forall>x \<in> set q. goodParent s x"
    and "visit iter par f (s, q) = ((s', q'), stop)"
  shows "shapeInv s' \<and> (\<forall>p. goodParent s p \<longrightarrow> goodParent s' p) \<and> (\<forall>x \<in> set q'. goodParent s' x)"
proof -
  obtain et pn where dt: "derefType (Type f) 0 = (et, pn)"
    by (metis prod.exhaust)
  show ?thesis
    using assms(4) shapeInv_takeField [OF assms(1,2) dt] goodParent_new [OF assms(2) dt]
      assms(1,3) dt
    by (auto simp: visit_def newField_def Let_def goodParent_takeField split: option.splits if_splits)
qed


lemma levelLoop_inv:
  assumes "shapeInv s" "goodParent s par" "\<forall>x \<in> set q. goodParent s x"
    and "levelLoop iter par ms (s, q) = (s', q')"
  shows "shapeInv s' \<and> (\<forall>p. goodParent s p \<longrightarrow> goodParent s' p) \<and> (\<forall>x \<in> set q'. goodParent s' x)"
  using assms
proof (induction ms arbitrary: s q)
  case Nil
  then show ?case by simp
next
  case (Cons f rest)
  obtain s1 q1 stop where v: "visit iter par f (s, q) = ((s1, q1), stop)"
    by (metis prod.exhaust)
  have i1: "shapeInv s1 \<and> (\<forall>p. goodParent s p \<longrightarrow> goodParent s1 p) \<and> (\<forall>x \<in> set q1. goodParent s1 x)"
    using visit_inv [OF Cons.prems(1,2,3) v] .
  show ?case
  proof (cases stop)
    case True
    then show ?thesis using Cons.prems(4) v i1 by simp
  next
    case False
    then have l: "levelLoop iter par rest (s1, q1) = (s', q')"
      using Cons.prems(4) v by simp
    have "shapeInv s' \<and> (\<forall>p. goodParent s1 p \<longrightarrow> goodParent s' p) \<and> (\<forall>x \<in> set q'. goodParent s' x)"
      using Cons.IH [OF _ _ _ l] i1 Cons.prems(2) by blast
    then show ?thesis using i1 by blast
  qed
qed

lemma shapeInv_bump [simp]: "shapeInv (s\<lparr>depth := d\<rparr>) = shapeInv s"
  by (simp add: shapeInv_def)

lemma goodParent_bump [simp]: "goodParent (s\<lparr>depth := d\<rparr>) p = goodParent s p"
  by (simp add: goodParent_def)

lemma traversal_inv:
  "shapeInv s \<Longrightarrow> goodParent s par \<Longrightarrow>
     shapeInv (traversalFields env m iter par s) \<and>
     (\<forall>p. goodParent s p \<longrightarrow> goodParent (traversalFields env m iter par s) p)"
  "shapeInv s \<Longrightarrow> (\<forall>x \<in> set fs. goodParent s x) \<Longrightarrow>
     shapeInv (expandFields env m iter fs s) \<and>
     (\<forall>p. goodParent s p \<longrightarrow> goodParent (expandFields env m iter fs s) p)"
proof (induction env m iter par s and env m iter fs s rule: traversalFields_expandFields.induct)
  case (1 env m iter par s)
  show ?case
  proof (cases "m \<le> depth s")
    case True
    then show ?thesis using 1(2) by (simp add: traversalFields.simps)
  next
    case False
    obtain s' q where l: "levelLoop iter par (structMembers env (elemTyp par))
                            (s\<lparr>depth := depth s + 1\<rparr>, []) = (s', q)"
      by (metis prod.exhaust)
    have i1: "shapeInv s' \<and> (\<forall>p. goodParent (s\<lparr>depth := depth s + 1\<rparr>) p \<longrightarrow> goodParent s' p)
              \<and> (\<forall>x \<in> set q. goodParent s' x)"
      by (rule levelLoop_inv [OF _ _ _ l]) (use 1(2,3) in simp_all)
    have i2: "shapeInv (expandFields env m iter q s') \<and>
              (\<forall>p. goodParent s' p \<longrightarrow> goodParent (expandFields env m iter q s') p)"
      using 1(1) [OF False l [symmetric]] i1 by blast
    have e: "traversalFields env m iter par s = expandFields env m iter q s'"
      using False l by (simp add: traversalFields.simps)
    show ?thesis unfolding e using i1 i2 by simp
  qed
next
  case (2 env m iter s)
  then show ?case by simp
next
  case (3 env m iter field rest s)
  let ?s1 = "traversalFields env m iter field s"
  have a: "shapeInv ?s1 \<and> (\<forall>p. goodParent s p \<longrightarrow> goodParent ?s1 p)"
    using 3(1) 3(3,4) by simp
  have b: "shapeInv (expandFields env m iter rest ?s1) \<and>
           (\<forall>p. goodParent ?s1 p \<longrightarrow> goodParent (expandFields env m iter rest ?s1) p)"
    using 3(2) a 3(4) by simp
  show ?case using a b by simp
qed

lemma shapeInv_groupBy [simp]: "shapeInv (groupBy_s fn s) = shapeInv s"
  by (simp add: shapeInv_def groupBy_s_def)

lemma newStructType_shapeInv:
  assumes "newStructType env a tid' h0 x = Inr s"
  shows "shapeInv s"
proof -
  obtain structTyp where t: "Type_v (DereferencePtrValue h0 (ValueOf x)) = Inr structTyp"
    using assms by (auto simp: newStructType_def split: sum.splits)
  let ?root = "MkFieldType rootID [] 0 0 structTyp None zeroStructField"
  let ?s0 = "\<lparr>tid = tid', fields_s = [], fieldGroup = (\<lambda>_. []), depth = 0,
               tree = ?root, children = (\<lambda>_. [])\<rparr>"
  have i0: "shapeInv ?s0" by (simp add: shapeInv_def)
  have g0: "goodParent ?s0 ?root"
    by (simp add: goodParent_def goodField_def dotted_def rootID_def)
  have "shapeInv (traversalFields env (maxDeep a) (iterator a) ?root ?s0)"
    using traversal_inv(1) [OF i0 g0] by simp
  then show ?thesis
    using assms t by (auto simp: newStructType_def Let_def split: if_splits option.splits)
qed


lemma shape_parent:
  assumes inv: "shapeInv s" and mem: "f \<in> set (fields_s s)"
  shows "\<exists>p. parent f = Some p \<and> id_f p < id_f f
           \<and> (case Parent f of None \<Rightarrow> p = tree s
               | Some p' \<Rightarrow> p' = p \<and> FieldType_s s (id_f p') = Some p')"
proof -
  obtain p where p: "parent f = Some p" "p = tree s \<or> p \<in> set (fields_s s)"
    using inv mem unfolding shapeInv_def by blast
  have "chainOK (length (fields_s s)) f"
    using inv mem by (simp add: shapeInv_def goodField_def)
  then have lt: "id_f p < id_f f" using p(1) by (cases f) auto
  have c: "(case Parent f of None \<Rightarrow> p = tree s
               | Some p' \<Rightarrow> p' = p \<and> FieldType_s s (id_f p') = Some p')"
  proof (cases "id_f p = rootID")
    case True
    have "p = tree s"
    proof (rule ccontr)
      assume "p \<noteq> tree s"
      then have "p \<in> set (fields_s s)" using p(2) by simp
      then obtain j where "j < length (fields_s s)" "fields_s s ! j = p"
        by (auto simp: in_set_conv_nth)
      then have "id_f p = int j" using inv by (auto simp: shapeInv_def)
      then show False using True by (simp add: rootID_def)
    qed
    then show ?thesis using True p(1) by (simp add: Parent_def)
  next
    case False
    then have "p \<noteq> tree s" using inv by (auto simp: shapeInv_def)
    then have "p \<in> set (fields_s s)" using p(2) by simp
    then obtain j where j: "j < length (fields_s s)" "fields_s s ! j = p"
      by (auto simp: in_set_conv_nth)
    then have "id_f p = int j" using inv by (auto simp: shapeInv_def)
    then have "FieldType_s s (id_f p) = Some p"
      using j by (simp add: FieldType_s_def checkID_def)
    then show ?thesis using False p(1) by (simp add: Parent_def)
  qed
  show ?thesis using p(1) lt c by blast
qed

lemma newStructType_P1:
  "newStructType envP1 defaultAccessor 1 heapP1 argP1 = Inr shapeP1"
  by (simp add: newStructType_def ValueOf_def argP1_def defaultAccessor_def shapeP1_def Let_def)

lemma selectors_P1:
  "map selector (fields_s shapeP1) =
     [''.A'', ''.b'', ''.P2'', ''.P2.C'', ''.P2.d'', ''.P2.P3'',
      ''.P2.P3.E'', ''.P2.P3.f'', ''.P2.P3.g'']"
  by code_simp

lemma NumField_P1: "NumField shapeP1 = 9"
  using arg_cong [OF selectors_P1, of length] by (simp add: NumField_def)

section \<open>Field ids\<close>

text \<open>
  C4. In the shape of an analyzed record type, the descriptor returned for a valid id
  \<open>i\<close> has id \<open>i\<close>: the ids index the flat list densely from 0. Every field has a parent
  whose id is smaller than its own; the parent is the tree root, of id \<open>-1\<close>, exactly when
  \<^verbatim>\<open>Parent()\<close> reports none, and otherwise it is the field of the flat list at its own id.
\<close>

theorem field_ids_dense:
  assumes "newStructType env a tid' h0 x = Inr s" and "0 \<le> i" and "i < NumField s"
  shows "\<exists>f p. FieldType_s s i = Some f \<and> id_f f = i \<and> parent f = Some p \<and> id_f p < id_f f
           \<and> (case Parent f of None \<Rightarrow> p = tree s \<and> id_f p = -1
               | Some p' \<Rightarrow> p' = p \<and> FieldType_s s (id_f p') = Some p')"
proof -
  have inv: "shapeInv s" using newStructType_shapeInv [OF assms(1)] .
  let ?f = "fields_s s ! nat i"
  have r: "nat i < length (fields_s s)" using assms(2,3) by (simp add: NumField_def)
  then have mem: "?f \<in> set (fields_s s)" by simp
  have ft: "FieldType_s s i = Some ?f"
    using assms(2,3) by (simp add: FieldType_s_def checkID_def NumField_def)
  have idf: "id_f ?f = i" using inv r assms(2) by (simp add: shapeInv_def)
  have root: "id_f (tree s) = -1" using inv by (simp add: shapeInv_def rootID_def)
  obtain p where p: "parent ?f = Some p" "id_f p < id_f ?f"
      "(case Parent ?f of None \<Rightarrow> p = tree s
        | Some p' \<Rightarrow> p' = p \<and> FieldType_s s (id_f p') = Some p')"
    using shape_parent [OF inv mem] by blast
  have "(case Parent ?f of None \<Rightarrow> p = tree s \<and> id_f p = -1
        | Some p' \<Rightarrow> p' = p \<and> FieldType_s s (id_f p') = Some p')"
    using p(3) root by (simp split: option.splits)
  then show ?thesis using ft idf p(1,2) by blast
qed

theorem field_ids_dense_witness:
  "newStructType envP1 defaultAccessor 1 heapP1 argP1 = Inr shapeP1 \<and> (0::int) \<le> 5
     \<and> 5 < NumField shapeP1
     \<and> (\<exists>f p. FieldType_s shapeP1 5 = Some f \<and> id_f f = 5 \<and> parent f = Some p
            \<and> id_f p < id_f f
            \<and> (case Parent f of None \<Rightarrow> p = tree shapeP1 \<and> id_f p = -1
                | Some p' \<Rightarrow> p' = p \<and> FieldType_s shapeP1 (id_f p') = Some p'))"
proof -
  have h: "(5::int) < NumField shapeP1" by (simp add: NumField_P1)
  show ?thesis
    using field_ids_dense [OF newStructType_P1 _ h] newStructType_P1 h by simp
qed

section \<open>Order of the flat list\<close>


lemma visit_fields:
  assumes "visit iter par f (s, q) = ((s', q'), stop)"
  shows "\<exists>L. fields_s s' = fields_s s @ L \<and> length L \<le> 1
           \<and> (\<forall>x \<in> set L. parent x = Some par \<and> deep x = depth s \<and> StructField x = f)
           \<and> (iter = None \<longrightarrow> L \<noteq> [] \<and> \<not> stop)
           \<and> (\<exists>Q. q' = q @ Q \<and> set Q \<subseteq> set L)"
  using assms
  by (auto simp: visit_def newField_def Let_def takeField_def split: prod.splits option.splits if_splits)

lemma levelLoop_fields:
  assumes "levelLoop iter par ms (s, q) = (s', q')"
  shows "\<exists>L. fields_s s' = fields_s s @ L
           \<and> (\<forall>x \<in> set L. parent x = Some par \<and> deep x = depth s)
           \<and> subseq (map StructField L) ms
           \<and> (iter = None \<longrightarrow> map StructField L = ms)
           \<and> (\<exists>Q. q' = q @ Q \<and> set Q \<subseteq> set L)"
  using assms
proof (induction ms arbitrary: s q)
  case Nil
  then show ?case by simp
next
  case (Cons f rest)
  obtain s1 q1 stop where v: "visit iter par f (s, q) = ((s1, q1), stop)"
    by (metis prod.exhaust)
  obtain L1 Q1 where L1: "fields_s s1 = fields_s s @ L1" "length L1 \<le> 1"
      "\<forall>x \<in> set L1. parent x = Some par \<and> deep x = depth s \<and> StructField x = f"
      "iter = None \<longrightarrow> L1 \<noteq> [] \<and> \<not> stop" "q1 = q @ Q1" "set Q1 \<subseteq> set L1"
    using visit_fields [OF v] by blast
  have d1: "depth s1 = depth s"
    using depth_visit [of iter par f "(s, q)"] v by simp
  have m1: "map StructField L1 = [] \<or> map StructField L1 = [f]"
    using L1(2,3) by (cases L1) auto
  have sub1: "subseq (map StructField L1) [f]"
    using m1 by auto
  show ?case
  proof (cases stop)
    case True
    then have e: "s' = s1" "q' = q1" using Cons.prems v by simp_all
    have "subseq (map StructField L1) (f # rest)"
      using m1 by auto
    then show ?thesis using e L1 True by auto
  next
    case False
    then have l: "levelLoop iter par rest (s1, q1) = (s', q')"
      using Cons.prems v by simp
    obtain L2 Q2 where L2: "fields_s s' = fields_s s1 @ L2"
        "\<forall>x \<in> set L2. parent x = Some par \<and> deep x = depth s1"
        "subseq (map StructField L2) rest" "iter = None \<longrightarrow> map StructField L2 = rest"
        "q' = q1 @ Q2" "set Q2 \<subseteq> set L2"
      using Cons.IH [OF l] by blast
    have a: "fields_s s' = fields_s s @ (L1 @ L2)" using L1(1) L2(1) by simp
    have b: "\<forall>x \<in> set (L1 @ L2). parent x = Some par \<and> deep x = depth s"
      using L1(3) L2(2) d1 by auto
    have c: "subseq (map StructField (L1 @ L2)) (f # rest)"
      using list_emb_append_mono [OF sub1 L2(3)] by simp
    have d: "iter = None \<longrightarrow> map StructField (L1 @ L2) = f # rest"
      using L1(4) m1 L2(4) by auto
    have e: "q' = q @ (Q1 @ Q2)" "set (Q1 @ Q2) \<subseteq> set (L1 @ L2)"
      using L1(5,6) L2(5,6) by auto
    show ?thesis
      by (rule exI [of _ "L1 @ L2"], intro conjI a b c d, rule exI [of _ "Q1 @ Q2"]) (use e in simp)
  qed
qed

lemma depth_mono:
  "depth s \<le> depth (traversalFields env m iter par s)"
  "depth s \<le> depth (expandFields env m iter fs s)"
proof (induction env m iter par s and env m iter fs s rule: traversalFields_expandFields.induct)
  case (1 env m iter par s)
  show ?case
  proof (cases "m \<le> depth s")
    case True
    then show ?thesis by (simp add: traversalFields.simps)
  next
    case False
    obtain s' q where l: "levelLoop iter par (structMembers env (elemTyp par))
                            (s\<lparr>depth := depth s + 1\<rparr>, []) = (s', q)"
      by (metis prod.exhaust)
    have "depth s' \<le> depth (expandFields env m iter q s')"
      using 1 [OF False l [symmetric]] .
    then show ?thesis
      using False l depth_levelLoop_bump [OF l] by (simp add: traversalFields.simps)
  qed
next
  case (2 env m iter s)
  show ?case by simp
next
  case (3 env m iter field rest s)
  then show ?case by simp
qed

lemma appended_deeper:
  "\<exists>R. fields_s (traversalFields env m iter par s) = fields_s s @ R
        \<and> (\<forall>x \<in> set R. depth s < deep x)"
  "\<exists>R. fields_s (expandFields env m iter fs s) = fields_s s @ R
        \<and> (\<forall>x \<in> set R. depth s < deep x)"
proof (induction env m iter par s and env m iter fs s rule: traversalFields_expandFields.induct)
  case (1 env m iter par s)
  show ?case
  proof (cases "m \<le> depth s")
    case True
    then show ?thesis by (simp add: traversalFields.simps)
  next
    case False
    obtain s' q where l: "levelLoop iter par (structMembers env (elemTyp par))
                            (s\<lparr>depth := depth s + 1\<rparr>, []) = (s', q)"
      by (metis prod.exhaust)
    obtain L where L: "fields_s s' = fields_s s @ L" "\<forall>x \<in> set L. deep x = depth s + 1"
      using levelLoop_fields [OF l] by auto
    have d: "depth s' = depth s + 1" using depth_levelLoop_bump [OF l] .
    obtain R where R: "fields_s (expandFields env m iter q s') = fields_s s' @ R"
        "\<forall>x \<in> set R. depth s' < deep x"
      using 1 [OF False l [symmetric]] by blast
    have e: "traversalFields env m iter par s = expandFields env m iter q s'"
      using False l by (simp add: traversalFields.simps)
    have "fields_s (traversalFields env m iter par s) = fields_s s @ (L @ R)"
      using e L(1) R(1) by simp
    moreover have "\<forall>x \<in> set (L @ R). depth s < deep x"
      using L(2) R(2) d by auto
    ultimately show ?thesis by blast
  qed
next
  case (2 env m iter s)
  then show ?case by simp
next
  case (3 env m iter field rest s)
  let ?s1 = "traversalFields env m iter field s"
  obtain R1 where R1: "fields_s ?s1 = fields_s s @ R1" "\<forall>x \<in> set R1. depth s < deep x"
    using 3(1) by blast
  obtain R2 where R2: "fields_s (expandFields env m iter rest ?s1) = fields_s ?s1 @ R2"
      "\<forall>x \<in> set R2. depth ?s1 < deep x"
    using 3(2) by blast
  have dm: "depth s \<le> depth ?s1" by (rule depth_mono)
  have "fields_s (expandFields env m iter (field # rest) s) = fields_s s @ (R1 @ R2)"
    using R1(1) R2(1) by simp
  moreover have "\<forall>x \<in> set (R1 @ R2). depth s < deep x"
    using R1(2) R2(2) dm by auto
  ultimately show ?case by blast
qed


lemma level_then_deeper:
  assumes "depth s < maxFieldDeep"
  shows "\<exists>L R. fields_s (traversalFields env maxFieldDeep iter par s) = fields_s s @ L @ R
           \<and> (\<forall>f \<in> set L. parent f = Some par \<and> deep f = depth s + 1)
           \<and> subseq (map StructField L) (structMembers env (elemTyp par))
           \<and> (iter = None \<longrightarrow> map StructField L = structMembers env (elemTyp par))
           \<and> (\<forall>f \<in> set R. depth s + 1 < deep f)"
proof -
  obtain s' q where l: "levelLoop iter par (structMembers env (elemTyp par))
                          (s\<lparr>depth := depth s + 1\<rparr>, []) = (s', q)"
    by (metis prod.exhaust)
  obtain L where L: "fields_s s' = fields_s s @ L"
      "\<forall>x \<in> set L. parent x = Some par \<and> deep x = depth s + 1"
      "subseq (map StructField L) (structMembers env (elemTyp par))"
      "iter = None \<longrightarrow> map StructField L = structMembers env (elemTyp par)"
    using levelLoop_fields [OF l] by auto
  have d: "depth s' = depth s + 1" using depth_levelLoop_bump [OF l] .
  obtain R where R: "fields_s (expandFields env maxFieldDeep iter q s') = fields_s s' @ R"
      "\<forall>x \<in> set R. depth s' < deep x"
    using appended_deeper(2) by blast
  have e: "traversalFields env maxFieldDeep iter par s = expandFields env maxFieldDeep iter q s'"
    using assms l by (simp add: traversalFields.simps)
  have "fields_s (traversalFields env maxFieldDeep iter par s) = fields_s s @ L @ R"
    using e L(1) R(1) by simp
  then show ?thesis using L(2,3,4) R(2) d by auto
qed

lemma fields_XY:
  "map selector (fields_s shapeXY) = [''.X'', ''.Y'', ''.X.a'', ''.Y.b'']"
  by code_simp

lemma deep_XY: "map deep (fields_s shapeXY) = [1, 1, 2, 3]"
  by code_simp

lemma newField_descriptor:
  "newField s par f = descriptor par (depth s) (length (fields_s s)) f"
  by (simp add: newField_def descriptor_def joinFieldName_def split: prod.splits)

lemma levelLoop_spec:
  assumes "levelLoop iter par ms (s, q) = (s', q')"
  shows "fields_s s' = fields_s s @ fst (levelSpec iter par (depth s) (length (fields_s s)) ms)
       \<and> q' = q @ snd (levelSpec iter par (depth s) (length (fields_s s)) ms)"
  using assms
proof (induction ms arbitrary: s q)
  case Nil
  then show ?case by simp
next
  case (Cons f rest)
  obtain s1 q1 stop where v: "visit iter par f (s, q) = ((s1, q1), stop)"
    by (metis prod.exhaust)
  let ?x = "descriptor par (depth s) (length (fields_s s)) f"
  let ?p = "case iter of None \<Rightarrow> Take | Some fn \<Rightarrow> fn ?x"
  let ?inc = "?p \<noteq> Skip \<and> ?p \<noteq> SkipAndStop"
  let ?que = "?inc \<and> ?p \<noteq> SkipOffspring \<and> ?p \<noteq> SkipOffspringAndStop \<and> isStruct (elemTyp ?x)"
  let ?halt = "?p = TakeAndStop \<or> ?p = SkipOffspringAndStop \<or> ?p = SkipAndStop"
  have V: "fields_s s1 = fields_s s @ (if ?inc then [?x] else [])"
      "q1 = q @ (if ?que then [?x] else [])" "stop = ?halt" "depth s1 = depth s"
    using v
    by (auto simp: visit_def newField_descriptor Let_def takeField_def split: option.splits if_splits)
  show ?case
  proof (cases stop)
    case True
    then have e: "s' = s1" "q' = q1" using Cons.prems v by simp_all
    show ?thesis using e V True by (simp add: Let_def)
  next
    case False
    then have l: "levelLoop iter par rest (s1, q1) = (s', q')"
      using Cons.prems v by simp
    have n1: "length (fields_s s1) = (if ?inc then length (fields_s s) + 1 else length (fields_s s))"
      using V(1) by simp
    show ?thesis using Cons.IH [OF l] V False n1 by (simp add: Let_def)
  qed
qed

lemma traversal_levelBlock:
  "\<exists>B. fields_s (traversalFields env m iter par s) = fields_s s @ B
      \<and> levelBlock env m iter par (depth s, length (fields_s s)) B
           (depth (traversalFields env m iter par s),
            length (fields_s (traversalFields env m iter par s)))"
  "\<exists>R. fields_s (expandFields env m iter fs s) = fields_s s @ R
      \<and> levelBlocks env m iter fs (depth s, length (fields_s s)) R
           (depth (expandFields env m iter fs s),
            length (fields_s (expandFields env m iter fs s)))"
proof (induction env m iter par s and env m iter fs s rule: traversalFields_expandFields.induct)
  case (1 env m iter par s)
  show ?case
  proof (cases "m \<le> depth s")
    case True
    then show ?thesis by (simp add: traversalFields.simps levelBlock_levelBlocks.ceiling)
  next
    case False
    obtain s' q where l: "levelLoop iter par (structMembers env (elemTyp par))
                            (s\<lparr>depth := depth s + 1\<rparr>, []) = (s', q)"
      by (metis prod.exhaust)
    let ?LQ = "levelSpec iter par (depth s + 1) (length (fields_s s)) (structMembers env (elemTyp par))"
    have sp: "fields_s s' = fields_s s @ fst ?LQ" "q = snd ?LQ"
      using levelLoop_spec [OF l] by simp_all
    have d: "depth s' = depth s + 1" using depth_levelLoop_bump [OF l] .
    obtain R where R: "fields_s (expandFields env m iter q s') = fields_s s' @ R"
        "levelBlocks env m iter q (depth s', length (fields_s s')) R
           (depth (expandFields env m iter q s'), length (fields_s (expandFields env m iter q s')))"
      using 1 [OF False l [symmetric]] by blast
    have e: "traversalFields env m iter par s = expandFields env m iter q s'"
      using False l by (simp add: traversalFields.simps)
    have lq: "?LQ = (fst ?LQ, q)" using sp(2) by simp
    have r: "levelBlocks env m iter q (depth s + 1, length (fields_s s) + length (fst ?LQ)) R
           (depth (expandFields env m iter q s'), length (fields_s (expandFields env m iter q s')))"
      using R(2) d sp(1) by simp
    have b: "levelBlock env m iter par (depth s, length (fields_s s)) (fst ?LQ @ R)
           (depth (expandFields env m iter q s'), length (fields_s (expandFields env m iter q s')))"
      using levelBlock_levelBlocks.level [OF _ lq r] False by simp
    have a: "fields_s (traversalFields env m iter par s) = fields_s s @ (fst ?LQ @ R)"
      using e sp(1) R(1) by simp
    show ?thesis
      by (rule exI [of _ "fst ?LQ @ R"]) (use a b e in simp)
  qed
next
  case (2 env m iter s)
  show ?case by (simp add: levelBlock_levelBlocks.empty)
next
  case (3 env m iter field rest s)
  let ?s1 = "traversalFields env m iter field s"
  obtain B where B: "fields_s ?s1 = fields_s s @ B"
      "levelBlock env m iter field (depth s, length (fields_s s)) B (depth ?s1, length (fields_s ?s1))"
    using 3(1) by blast
  obtain R where R: "fields_s (expandFields env m iter rest ?s1) = fields_s ?s1 @ R"
      "levelBlocks env m iter rest (depth ?s1, length (fields_s ?s1)) R
         (depth (expandFields env m iter rest ?s1), length (fields_s (expandFields env m iter rest ?s1)))"
    using 3(2) by blast
  have n: "levelBlocks env m iter (field # rest) (depth s, length (fields_s s)) (B @ R)
         (depth (expandFields env m iter rest ?s1), length (fields_s (expandFields env m iter rest ?s1)))"
    using levelBlock_levelBlocks.queue [OF B(2) R(2)] .
  show ?case
    by (rule exI [of _ "B @ R"]) (use B(1) R(1) n in simp)
qed

lemma levelBlock_unique_all:
  "levelBlock env m iter par c B c1 \<Longrightarrow>
     \<forall>B' c2. levelBlock env m iter par c B' c2 \<longrightarrow> B' = B \<and> c2 = c1"
  "levelBlocks env m iter Q c R c1 \<Longrightarrow>
     \<forall>R' c2. levelBlocks env m iter Q c R' c2 \<longrightarrow> R' = R \<and> c2 = c1"
proof (induct rule: levelBlock_levelBlocks.inducts)
  case (ceiling d par n)
  then show ?case by (auto elim: levelBlockE)
next
  case (level d par n L Q R c)
  show ?case
  proof (intro allI impI)
    fix B' c2
    assume "levelBlock env m iter par (d, n) B' c2"
    then show "B' = L @ R \<and> c2 = c"
    proof (rule levelBlockE)
      assume "m \<le> d"
      then show ?thesis using level(1) by simp
    next
      fix L' Q' R0
      assume a: "B' = L' @ R0" "levelSpec iter par (d + 1) n (structMembers env (elemTyp par)) = (L', Q')"
        "levelBlocks env m iter Q' (d + 1, n + length L') R0 c2"
      have e: "L' = L" "Q' = Q" using a(2) level(2) by simp_all
      then have "R0 = R \<and> c2 = c" using level(4) a(3) by blast
      then show ?thesis using a(1) e by simp
    qed
  qed
next
  case (empty c)
  show ?case by (auto elim: levelBlocks_NilE)
next
  case (queue q c B c' Q R c'')
  show ?case
  proof (intro allI impI)
    fix R' c2
    assume "levelBlocks env m iter (q # Q) c R' c2"
    then show "R' = B @ R \<and> c2 = c''"
    proof (rule levelBlocks_ConsE)
      fix B0 c0 R0
      assume a: "R' = B0 @ R0" "levelBlock env m iter q c B0 c0" "levelBlocks env m iter Q c0 R0 c2"
      have b: "B0 = B \<and> c0 = c'" using queue(2) a(2) by blast
      then have "R0 = R \<and> c2 = c''" using queue(4) a(3) by blast
      then show ?thesis using a(1) b by simp
    qed
  qed
qed

lemma levelBlock_unique:
  "levelBlock env m iter par c B c1 \<Longrightarrow> levelBlock env m iter par c B' c2 \<Longrightarrow> B' = B \<and> c2 = c1"
  using levelBlock_unique_all(1) by blast

lemma traversal_level_order:
  "levelBlock env maxFieldDeep iter par (depth s, length (fields_s s)) B c \<longleftrightarrow>
     fields_s (traversalFields env maxFieldDeep iter par s) = fields_s s @ B
     \<and> c = (depth (traversalFields env maxFieldDeep iter par s),
            length (fields_s (traversalFields env maxFieldDeep iter par s)))"
proof -
  let ?s' = "traversalFields env maxFieldDeep iter par s"
  obtain B0 where B0: "fields_s ?s' = fields_s s @ B0"
      "levelBlock env maxFieldDeep iter par (depth s, length (fields_s s)) B0
         (depth ?s', length (fields_s ?s'))"
    using traversal_levelBlock(1) by blast
  show ?thesis
  proof
    assume "levelBlock env maxFieldDeep iter par (depth s, length (fields_s s)) B c"
    then have "B = B0 \<and> c = (depth ?s', length (fields_s ?s'))"
      using levelBlock_unique [OF B0(2)] by blast
    then show "fields_s ?s' = fields_s s @ B \<and> c = (depth ?s', length (fields_s ?s'))"
      using B0(1) by simp
  next
    assume "fields_s ?s' = fields_s s @ B \<and> c = (depth ?s', length (fields_s ?s'))"
    then have "B = B0" "c = (depth ?s', length (fields_s ?s'))" using B0(1) by simp_all
    then show "levelBlock env maxFieldDeep iter par (depth s, length (fields_s s)) B c"
      using B0(2) by simp
  qed
qed

lemma tree_visit: "tree (fst (fst (visit iter par f st))) = tree (fst st)"
  by (simp add: visit_def takeField_def Let_def split: prod.splits option.splits)

lemma tree_levelLoop: "tree (fst (levelLoop iter par ms st)) = tree (fst st)"
proof (induction ms arbitrary: st)
  case Nil
  show ?case by simp
next
  case (Cons f rest)
  obtain st' stop where v: "visit iter par f st = (st', stop)"
    by (cases "visit iter par f st")
  have d: "tree (fst st') = tree (fst st)"
    using tree_visit [of iter par f st] v by simp
  show ?case using Cons.IH [of st'] v d by simp
qed

lemma tree_traversal:
  "tree (traversalFields env m iter par s) = tree s"
  "tree (expandFields env m iter fs s) = tree s"
proof (induction env m iter par s and env m iter fs s rule: traversalFields_expandFields.induct)
  case (1 env m iter par s)
  show ?case
  proof (cases "m \<le> depth s")
    case True
    then show ?thesis by (simp add: traversalFields.simps)
  next
    case False
    obtain s' q where l: "levelLoop iter par (structMembers env (elemTyp par))
                            (s\<lparr>depth := depth s + 1\<rparr>, []) = (s', q)"
      by (metis prod.exhaust)
    have "tree s' = tree s"
      using tree_levelLoop [of iter par "structMembers env (elemTyp par)"
          "(s\<lparr>depth := depth s + 1\<rparr>, [])"] l by simp
    then show ?thesis
      using False l 1 [OF False l [symmetric]] by (simp add: traversalFields.simps)
  qed
next
  case (2 env m iter s)
  show ?case by simp
next
  case (3 env m iter field rest s)
  then show ?case by simp
qed

lemma newStructType_XY:
  "newStructType envXY defaultAccessor 2 heapXY argXY = Inr shapeXY"
  by (simp add: newStructType_def ValueOf_def argXY_def defaultAccessor_def shapeXY_def
        rootXY_def emptyXY_def Let_def)

text \<open>
  C3, as amended. The flat list is ordered level by level, not in pre-order: the flat
  list of an analyzed type is the level-ordered block of the tree root, and no other
  list is. Each expansion lists first the included members of its record, contiguously
  and in declaration order, and after them, for each queued composite member in queue
  order, the whole block of that member's expansion. So a composite field is followed by
  its later siblings before its own sub-fields. The list is determined by the type
  table, the policy function and the ceiling, hence the same in every analysis of the
  type.
\<close>

theorem level_order:
  assumes "newStructType env a tid' h0 x = Inr s"
  shows "levelBlock env (maxDeep a) (iterator a) (tree s) (0, 0) B c \<longleftrightarrow>
           B = fields_s s \<and> c = (depth s, length (fields_s s))"
proof -
  obtain structTyp where t: "Type_v (DereferencePtrValue h0 (ValueOf x)) = Inr structTyp"
    using assms by (auto simp: newStructType_def split: sum.splits)
  let ?root = "MkFieldType rootID [] 0 0 structTyp None zeroStructField"
  let ?s0 = "\<lparr>tid = tid', fields_s = [], fieldGroup = (\<lambda>_. []), depth = 0,
               tree = ?root, children = (\<lambda>_. [])\<rparr>"
  let ?s1 = "traversalFields env (maxDeep a) (iterator a) ?root ?s0"
  have s: "fields_s s = fields_s ?s1" "depth s = depth ?s1" "tree s = tree ?s1"
    using assms t
    by (auto simp: newStructType_def Let_def groupBy_s_def split: if_splits option.splits)
  have r: "tree ?s1 = ?root"
    using tree_traversal(1) [of env "maxDeep a" "iterator a" ?root ?s0] by simp
  show ?thesis
    using traversal_level_order [of env "maxDeep a" "iterator a" ?root ?s0 B c] s r by auto
qed

theorem level_order_witness:
  "newStructType envXY defaultAccessor 2 heapXY argXY = Inr shapeXY
   \<and> map selector (fields_s shapeXY) = [''.X'', ''.Y'', ''.X.a'', ''.Y.b'']
   \<and> levelSpec None rootXY 1 0 (structMembers envXY (elemTyp rootXY))
       = (take 2 (fields_s shapeXY), take 2 (fields_s shapeXY))
   \<and> levelBlock envXY 16 None rootXY (0, 0) (fields_s shapeXY) (3, 4)
   \<and> \<not> (\<exists>c. levelBlock envXY 16 None rootXY (0, 0)
              [fields_s shapeXY ! 0, fields_s shapeXY ! 1, fields_s shapeXY ! 3, fields_s shapeXY ! 2] c)
   \<and> \<not> (\<exists>c. levelBlock envXY 16 None rootXY (0, 0)
              [fields_s shapeXY ! 0, fields_s shapeXY ! 2, fields_s shapeXY ! 1, fields_s shapeXY ! 3] c)
   \<and> \<not> (\<exists>c. levelBlock envXY 16 None rootXY (0, 0) (take 2 (fields_s shapeXY)) c)"
proof -
  note n = newStructType_XY
  have p: "maxDeep defaultAccessor = 16" "iterator defaultAccessor = None"
    by (simp_all add: defaultAccessor_def)
  have t: "tree shapeXY = rootXY"
    using tree_traversal(1) [of envXY 16 None rootXY emptyXY] by (simp add: shapeXY_def emptyXY_def)
  have d: "depth shapeXY = 3" "length (fields_s shapeXY) = 4" by code_simp+
  have sel: "map selector (fields_s shapeXY) = [''.X'', ''.Y'', ''.X.a'', ''.Y.b'']" by code_simp
  have sp: "levelSpec None rootXY 1 0 (structMembers envXY (elemTyp rootXY))
       = (take 2 (fields_s shapeXY), take 2 (fields_s shapeXY))" by code_simp
  have ne: "[fields_s shapeXY ! 0, fields_s shapeXY ! 1, fields_s shapeXY ! 3, fields_s shapeXY ! 2]
              \<noteq> fields_s shapeXY"
      "[fields_s shapeXY ! 0, fields_s shapeXY ! 2, fields_s shapeXY ! 1, fields_s shapeXY ! 3]
              \<noteq> fields_s shapeXY"
      "take 2 (fields_s shapeXY) \<noteq> fields_s shapeXY"
    by code_simp+
  have L: "\<And>B c. levelBlock envXY 16 None rootXY (0, 0) B c \<longleftrightarrow> B = fields_s shapeXY \<and> c = (3, 4)"
    using level_order [OF n] p t d by simp
  show ?thesis using n sel sp L ne by simp
qed

text \<open>
  The claim as worded fails on two sibling members of which the first is composite: the
  flat list has \<^verbatim>\<open>.Y\<close> before \<^verbatim>\<open>.X.a\<close>, the pre-order of the same tree has it after.
\<close>

theorem level_order_counterexample:
  "map selector (fields_s shapeXY) = [''.X'', ''.Y'', ''.X.a'', ''.Y.b'']
   \<and> map selector (preorder 16 (children shapeXY) (children shapeXY rootID))
       = [''.X'', ''.X.a'', ''.Y'', ''.Y.b'']
   \<and> fields_s shapeXY \<noteq> preorder 16 (children shapeXY) (children shapeXY rootID)"
  by code_simp

section \<open>Nesting depth\<close>

text \<open>
  C2 at its failing input. With two sibling composite members \<^verbatim>\<open>X\<close> and \<^verbatim>\<open>Y\<close> of the
  root, the sub-field \<^verbatim>\<open>.Y.b\<close> gets \<^verbatim>\<open>deep = 3\<close> although its parent \<^verbatim>\<open>.Y\<close> has
  \<^verbatim>\<open>deep = 1\<close>: \<^verbatim>\<open>deep\<close> is the running count of expansions, not the nesting depth.
\<close>

theorem deep_counts_expansions:
  "newStructType envXY defaultAccessor 2 heapXY argXY = Inr shapeXY
   \<and> map selector (fields_s shapeXY) = [''.X'', ''.Y'', ''.X.a'', ''.Y.b'']
   \<and> map deep (fields_s shapeXY) = [1, 1, 2, 3]
   \<and> map (map_option selector \<circ> parent) (fields_s shapeXY) = [Some [], Some [], Some ''.X'', Some ''.Y'']
   \<and> depth shapeXY = 3"
proof -
  have a: "newStructType envXY defaultAccessor 2 heapXY argXY = Inr shapeXY"
    by (simp add: newStructType_def ValueOf_def argXY_def defaultAccessor_def shapeXY_def
          rootXY_def emptyXY_def Let_def)
  have b: "map (map_option selector \<circ> parent) (fields_s shapeXY) = [Some [], Some [], Some ''.X'', Some ''.Y'']"
    by code_simp
  have c: "depth shapeXY = 3" by code_simp
  show ?thesis using a b c fields_XY deep_XY by simp
qed

section \<open>Traversal policies\<close>

text \<open>
  What one iteration does under each policy. \<^verbatim>\<open>Hide\<close> and \<^verbatim>\<open>HideAndStop\<close> have no
  \<^verbatim>\<open>case\<close> of their own: they do what no policy function does.
\<close>

lemma visit_policies:
  "fn (newField s par f) = Skip \<Longrightarrow> visit (Some fn) par f (s, q) = ((s, q), False)"
  "fn (newField s par f) = SkipAndStop \<Longrightarrow> visit (Some fn) par f (s, q) = ((s, q), True)"
  "fn (newField s par f) = SkipOffspring \<Longrightarrow>
     visit (Some fn) par f (s, q) = ((takeField par (newField s par f) s, q), False)"
  "fn (newField s par f) = SkipOffspringAndStop \<Longrightarrow>
     visit (Some fn) par f (s, q) = ((takeField par (newField s par f) s, q), True)"
  "fn (newField s par f) = TakeAndStop \<Longrightarrow>
     visit (Some fn) par f (s, q) = (fst (visit None par f (s, q)), True)"
  "fn (newField s par f) = Take \<Longrightarrow> visit (Some fn) par f (s, q) = visit None par f (s, q)"
  by (simp_all add: visit_def Let_def)

lemma visit_default:
  assumes "fn (newField s par f) \<noteq> SkipOffspring" "fn (newField s par f) \<noteq> Skip"
    "fn (newField s par f) \<noteq> TakeAndStop" "fn (newField s par f) \<noteq> SkipOffspringAndStop"
    "fn (newField s par f) \<noteq> SkipAndStop"
  shows "visit (Some fn) par f (s, q) = visit None par f (s, q)"
  using assms by (simp add: visit_def Let_def)

lemma visit_Hide:
  "fn (newField s par f) = Hide \<Longrightarrow> visit (Some fn) par f (s, q) = visit None par f (s, q)"
  "fn (newField s par f) = HideAndStop \<Longrightarrow> visit (Some fn) par f (s, q) = visit None par f (s, q)"
  by (simp_all add: visit_default)

lemma levelLoop_break:
  "snd (visit iter par f st) \<Longrightarrow> levelLoop iter par (f # rest) st = fst (visit iter par f st)"
  "\<not> snd (visit iter par f st) \<Longrightarrow>
     levelLoop iter par (f # rest) st = levelLoop iter par rest (fst (visit iter par f st))"
  by (cases "visit iter par f st"; simp)+

text \<open>
  C1 at its failing inputs. On the benchmark type, a policy function that answers
  \<^verbatim>\<open>Hide\<close> for one member (scalar \<^verbatim>\<open>b\<close> or composite \<^verbatim>\<open>P2\<close>), or \<^verbatim>\<open>HideAndStop\<close> for
  \<^verbatim>\<open>b\<close>, yields the same nine fields as no policy at all: both policies reach the
  \<^verbatim>\<open>default\<close> branch and are treated as \<^verbatim>\<open>Take\<close>. \<^verbatim>\<open>Skip\<close> and \<^verbatim>\<open>SkipAndStop\<close> at
  \<^verbatim>\<open>b\<close> are shown for comparison.
\<close>

theorem hide_is_taken:
  "selectorsOf (analyzeP1 (policyAt ''b'' Hide))
     = [''.A'', ''.b'', ''.P2'', ''.P2.C'', ''.P2.d'', ''.P2.P3'', ''.P2.P3.E'', ''.P2.P3.f'', ''.P2.P3.g'']
   \<and> selectorsOf (analyzeP1 (policyAt ''P2'' Hide))
     = [''.A'', ''.b'', ''.P2'', ''.P2.C'', ''.P2.d'', ''.P2.P3'', ''.P2.P3.E'', ''.P2.P3.f'', ''.P2.P3.g'']
   \<and> selectorsOf (analyzeP1 (policyAt ''b'' HideAndStop))
     = [''.A'', ''.b'', ''.P2'', ''.P2.C'', ''.P2.d'', ''.P2.P3'', ''.P2.P3.E'', ''.P2.P3.f'', ''.P2.P3.g'']
   \<and> selectorsOf (analyzeP1 (policyAt ''b'' Skip))
     = [''.A'', ''.P2'', ''.P2.C'', ''.P2.d'', ''.P2.P3'', ''.P2.P3.E'', ''.P2.P3.f'', ''.P2.P3.g'']
   \<and> selectorsOf (analyzeP1 (policyAt ''b'' SkipAndStop)) = [''.A'']"
  by code_simp

text \<open>
  C5 at its failing input. \<^verbatim>\<open>HideAndStop\<close> at member \<^verbatim>\<open>C\<close> of \<^verbatim>\<open>P2\<close> does not stop the
  processing of the later siblings \<^verbatim>\<open>d\<close> and \<^verbatim>\<open>P3\<close>, while the three other stopping
  policies at the same member do.
\<close>

theorem hide_and_stop_does_not_stop:
  "selectorsOf (analyzeP1 (policyAt ''C'' HideAndStop))
     = [''.A'', ''.b'', ''.P2'', ''.P2.C'', ''.P2.d'', ''.P2.P3'', ''.P2.P3.E'', ''.P2.P3.f'', ''.P2.P3.g'']
   \<and> selectorsOf (analyzeP1 (policyAt ''C'' TakeAndStop)) = [''.A'', ''.b'', ''.P2'', ''.P2.C'']
   \<and> selectorsOf (analyzeP1 (policyAt ''C'' SkipOffspringAndStop)) = [''.A'', ''.b'', ''.P2'', ''.P2.C'']
   \<and> selectorsOf (analyzeP1 (policyAt ''C'' SkipAndStop)) = [''.A'', ''.b'', ''.P2'']"
  by code_simp

section \<open>Name paths\<close>

lemma joinFieldName_revisions:
  "joinFieldName [] name = ''.'' @ name"
  "joinFieldName_0 [] name = name"
  "parentPath \<noteq> [] \<Longrightarrow> joinFieldName_0 parentPath name = joinFieldName parentPath name"
  by (simp_all add: joinFieldName_def joinFieldName_0_def)

text \<open>
  C9, as amended. The selector of a field of an analyzed type is the concatenation, from
  the root down to the field, of a dot followed by the declared member name: for a
  direct field of the root it is the dot followed by the field's name, for any other
  field it is the parent's selector, a dot and the field's name. The root sentinel has
  the empty selector.
\<close>

theorem selector_is_dotted_path:
  assumes "newStructType env a tid' h0 x = Inr s" and "FieldType_s s i = Some f"
  shows "selector f = dotted (names f)
         \<and> (Parent f = None \<longrightarrow> names f = [Name (StructField f)]
               \<and> selector f = ''.'' @ Name (StructField f))
         \<and> (\<forall>p. Parent f = Some p \<longrightarrow> names f = names p @ [Name (StructField f)]
               \<and> selector f = selector p @ ''.'' @ Name (StructField f))
         \<and> selector (tree s) = [] \<and> names (tree s) = []"
proof -
  have inv: "shapeInv s" using newStructType_shapeInv [OF assms(1)] .
  have r: "0 \<le> i" "nat i < length (fields_s s)" and f: "f = fields_s s ! nat i"
    using assms(2) by (auto simp: FieldType_s_def checkID_def split: if_splits)
  have mem: "f \<in> set (fields_s s)" using r f by simp
  have sel: "selector f = dotted (names f)"
    using inv mem by (simp add: shapeInv_def goodField_def)
  have root: "selector (tree s) = []" "parent (tree s) = None"
    using inv by (simp_all add: shapeInv_def)
  have nroot: "names (tree s) = []" using root(2) by (cases "tree s") simp
  obtain p where p: "parent f = Some p"
      "(case Parent f of None \<Rightarrow> p = tree s
        | Some p' \<Rightarrow> p' = p \<and> FieldType_s s (id_f p') = Some p')"
    using shape_parent [OF inv mem] by blast
  have nf: "names f = names p @ [Name (StructField f)]"
    using p(1) by (cases f) simp
  have selp: "Parent f = Some p \<longrightarrow> selector p = dotted (names p)"
  proof
    assume "Parent f = Some p"
    then have "FieldType_s s (id_f p) = Some p" using p(2) by simp
    then have "nat (id_f p) < length (fields_s s)" "fields_s s ! nat (id_f p) = p"
      by (auto simp: FieldType_s_def checkID_def split: if_splits)
    then have "p \<in> set (fields_s s)"
      using nth_mem by metis
    then show "selector p = dotted (names p)"
      using inv by (simp add: shapeInv_def goodField_def)
  qed
  have c1: "Parent f = None \<longrightarrow> names f = [Name (StructField f)]
               \<and> selector f = ''.'' @ Name (StructField f)"
    using p(2) nf nroot sel by (auto simp: dotted_def)
  have c2: "\<forall>q. Parent f = Some q \<longrightarrow> names f = names q @ [Name (StructField f)]
               \<and> selector f = selector q @ ''.'' @ Name (StructField f)"
    using p(2) nf sel selp by (auto simp: dotted_def)
  show ?thesis using sel c1 c2 root(1) nroot by blast
qed

theorem selector_is_dotted_path_witness:
  "newStructType envP1 defaultAccessor 1 heapP1 argP1 = Inr shapeP1
   \<and> FieldType_s shapeP1 0 = Some (fields_s shapeP1 ! 0)
   \<and> Parent (fields_s shapeP1 ! 0) = None
   \<and> selector (fields_s shapeP1 ! 0) = ''.'' @ Name (StructField (fields_s shapeP1 ! 0))
   \<and> FieldType_s shapeP1 6 = Some (fields_s shapeP1 ! 6)
   \<and> names (fields_s shapeP1 ! 6) = [''P2'', ''P3'', ''E'']
   \<and> selector (fields_s shapeP1 ! 6) = dotted (names (fields_s shapeP1 ! 6))
   \<and> selector (tree shapeP1) = []"
proof -
  have f0: "FieldType_s shapeP1 0 = Some (fields_s shapeP1 ! 0)"
    by (simp add: FieldType_s_def checkID_def NumField_P1 [unfolded NumField_def])
  have f6: "FieldType_s shapeP1 6 = Some (fields_s shapeP1 ! 6)"
    by (simp add: FieldType_s_def checkID_def NumField_P1 [unfolded NumField_def])
  have p0: "Parent (fields_s shapeP1 ! 0) = None" by code_simp
  have n6: "names (fields_s shapeP1 ! 6) = [''P2'', ''P3'', ''E'']" by code_simp
  show ?thesis
    using selector_is_dotted_path [OF newStructType_P1 f0]
      selector_is_dotted_path [OF newStructType_P1 f6] f0 f6 p0 n6 newStructType_P1
    by (simp add: dotted_def)
qed

text \<open>
  The claim as worded fails on the first field of the benchmark type: it is a direct
  field of the root, its declared name is \<^verbatim>\<open>A\<close> and its selector is \<^verbatim>\<open>.A\<close>.
\<close>

theorem selector_counterexample:
  "newStructType envP1 defaultAccessor 1 heapP1 argP1 = Inr shapeP1
   \<and> Parent (fields_s shapeP1 ! 0) = None
   \<and> Name (StructField (fields_s shapeP1 ! 0)) = ''A''
   \<and> selector (fields_s shapeP1 ! 0) = ''.A''
   \<and> joinFieldName (selector (tree shapeP1)) ''A'' = ''.A''"
proof -
  have "Parent (fields_s shapeP1 ! 0) = None" by code_simp
  moreover have "Name (StructField (fields_s shapeP1 ! 0)) = ''A''" by code_simp
  moreover have "selector (fields_s shapeP1 ! 0) = ''.A''" by code_simp
  moreover have "joinFieldName (selector (tree shapeP1)) ''A'' = ''.A''" by code_simp
  ultimately show ?thesis using newStructType_P1 by simp
qed

section \<open>The shape cache\<close>

lemma tid_visit: "tid (fst (fst (visit iter par f st))) = tid (fst st)"
  by (simp add: visit_def takeField_def Let_def split: prod.splits option.splits)

lemma tid_levelLoop: "tid (fst (levelLoop iter par ms st)) = tid (fst st)"
proof (induction ms arbitrary: st)
  case Nil
  show ?case by simp
next
  case (Cons f rest)
  obtain st' stop where v: "visit iter par f st = (st', stop)"
    by (cases "visit iter par f st")
  have d: "tid (fst st') = tid (fst st)"
    using tid_visit [of iter par f st] v by simp
  show ?case using Cons.IH [of st'] v d by simp
qed

lemma tid_traversal:
  "tid (traversalFields env m iter par s) = tid s"
  "tid (expandFields env m iter fs s) = tid s"
proof (induction env m iter par s and env m iter fs s rule: traversalFields_expandFields.induct)
  case (1 env m iter par s)
  show ?case
  proof (cases "m \<le> depth s")
    case True
    then show ?thesis by (simp add: traversalFields.simps)
  next
    case False
    obtain s' q where l: "levelLoop iter par (structMembers env (elemTyp par))
                            (s\<lparr>depth := depth s + 1\<rparr>, []) = (s', q)"
      by (metis prod.exhaust)
    have "tid s' = tid s"
      using tid_levelLoop [of iter par "structMembers env (elemTyp par)" "(s\<lparr>depth := depth s + 1\<rparr>, [])"] l
      by simp
    then show ?thesis
      using False l 1 [OF False l [symmetric]] by (simp add: traversalFields.simps)
  qed
next
  case (2 env m iter s)
  show ?case by simp
next
  case (3 env m iter field rest s)
  then show ?case by simp
qed

lemma tid_newStructType: "newStructType env a tid' h x = Inr s \<Longrightarrow> tid s = tid'"
  by (auto simp: newStructType_def Let_def tid_traversal groupBy_s_def
        split: if_splits option.splits sum.splits)

text \<open>
  A second analysis of the same type through the same factory returns the cached shape.
\<close>

lemma analyze_again:
  assumes "analyze env a tid' h x = Inr (t, a')"
  shows "analyze env a' tid' h' x' = Inr (t, a')"
proof (cases "load a tid'")
  case (Some sTyp)
  then show ?thesis using assms by (simp add: analyze_def)
next
  case None
  then obtain sTyp where n: "newStructType env a tid' h x = Inr sTyp" "t = sTyp" "a' = store a sTyp"
    using assms by (auto simp: analyze_def split: sum.splits)
  have "load a' tid' = Some t"
    using n tid_newStructType [OF n(1)] by (simp add: load_def store_def)
  then show ?thesis by (simp add: analyze_def)
qed

section \<open>The resolved cache\<close>

lemma keeps_refl [simp]: "keeps s s"
  by (simp add: keeps_def)

lemma keeps_trans: "keeps s s1 \<Longrightarrow> keeps s1 s2 \<Longrightarrow> keeps s s2"
  by (auto simp: keeps_def)

lemma init_keeps: "init sz f (s, h) = Inr (v, s', h') \<Longrightarrow> keeps s s'"
proof (induction sz f "(s, h)" arbitrary: v s' h' rule: init.induct)
  case (1 sz i sel d pn et sf)
  then show ?case by simp
next
  case (2 sz i sel d pn et p sf)
  show ?case
  proof (cases "0 \<le> i \<and> i < int (length (fieldValues s))")
    case False
    then show ?thesis using 2(2) by simp
  next
    case r: True
    show ?thesis
    proof (cases "elemPtr (fieldValues s ! nat i) > 0")
      case True
      then show ?thesis using 2(2) r by simp
    next
      case e: False
      obtain pVal s1 h1 where ip: "init sz p (s, h) = Inr (pVal, s1, h1)"
        using 2(2) r e by (auto split: sum.splits)
      have k1: "keeps s s1" by (rule 2(1) [OF _ e ip]) (use r in simp)
      obtain w where s': "s' = s1\<lparr>fieldValues := (fieldValues s1)[nat i := w]\<rparr>"
        using 2(2) r e ip by (auto split: sum.splits if_splits)
      have "keeps s s'"
        using k1 e r unfolding s' keeps_def by (auto simp: nth_list_update)
      then show ?thesis .
    qed
  qed
qed

lemma RangeLoop_keeps:
  "RangeLoop sz fn i ts (s, h) = Inr (tr, s', h') \<Longrightarrow> keeps s s'"
proof (induction ts arbitrary: i s h tr s' h')
  case Nil
  then show ?case by simp
next
  case (Cons t rest)
  have r: "i < int (length (fieldValues s))"
    using Cons.prems by (simp split: if_splits)
  obtain v s1 h1 where st: "(if elemPtr (fieldValues s ! nat i) > 0
               then Inr (fieldValues s ! nat i, s, h) else init sz t (s, h)) = Inr (v, s1, h1)"
    using Cons.prems r by (auto split: sum.splits)
  have k1: "keeps s s1"
    using st init_keeps by (auto split: if_splits)
  obtain ok h2 where cb: "fn t (elemVal v) h1 = (ok, h2)" by (metis prod.exhaust)
  show ?case
  proof (cases ok)
    case False
    then show ?thesis using Cons.prems r st cb k1 by simp
  next
    case True
    then obtain tr' where "RangeLoop sz fn (i + 1) rest (s1, h2) = Inr (tr', s', h')"
      using Cons.prems r st cb by (auto split: sum.splits)
    then have "keeps s1 s'" using Cons.IH by blast
    then show ?thesis using k1 keeps_trans by blast
  qed
qed

lemma GroupValuesLoop_keeps:
  "GroupValuesLoop sz ts (s, h) = Inr (r, s', h') \<Longrightarrow> keeps s s'"
proof (induction ts arbitrary: s h r s' h')
  case Nil
  then show ?case by simp
next
  case (Cons t rest)
  have rg: "0 \<le> id_f t \<and> id_f t < int (length (fieldValues s))"
    using Cons.prems by (simp split: if_splits)
  obtain v s1 h1 where st: "(if elemPtr (fieldValues s ! nat (id_f t)) > 0
               then Inr (fieldValues s ! nat (id_f t), s, h) else init sz t (s, h)) = Inr (v, s1, h1)"
    using Cons.prems rg by (auto split: sum.splits)
  have k1: "keeps s s1"
    using st init_keeps by (auto split: if_splits)
  obtain r' where "GroupValuesLoop sz rest (s1, h1) = Inr (r', s', h')"
    using Cons.prems rg st by (auto split: sum.splits)
  then have "keeps s1 s'" using Cons.IH by blast
  then show ?case using k1 keeps_trans by blast
qed

lemma map_sum_snd_Inr:
  "map_sum id snd x = Inr (s', h') \<Longrightarrow> \<exists>r. x = Inr (r, s', h')"
  by (cases x) auto

lemma perform_keeps:
  assumes "perform sz op (s, h) = Inr (s', h')"
  shows "keeps s s'"
proof (cases op)
  case (OpFieldValue i)
  then obtain r where "FieldValue sz i (s, h) = Inr (r, s', h')"
    using assms map_sum_snd_Inr by fastforce
  then show ?thesis using init_keeps
    by (auto simp: FieldValue_def split: if_splits sum.splits)
next
  case (OpField i)
  then obtain r where "Field_s sz i (s, h) = Inr (r, s', h')"
    using assms map_sum_snd_Inr by fastforce
  then show ?thesis using init_keeps
    by (auto simp: Field_s_def split: if_splits sum.splits)
next
  case (OpRange fn)
  then obtain r where "Range_s sz fn (s, h) = Inr (r, s', h')"
    using assms map_sum_snd_Inr by fastforce
  then show ?thesis using RangeLoop_keeps by (simp add: Range_s_def)
next
  case (OpGroupValues grp)
  then obtain r where "GroupValues sz grp (s, h) = Inr (r, s', h')"
    using assms map_sum_snd_Inr by fastforce
  then show ?thesis using GroupValuesLoop_keeps by (simp add: GroupValues_def)
qed

lemma derefType_eq: "derefType t n = (stripAll t, n + int (layers t))"
  by (induction t n rule: derefType.induct) auto

lemma stripAll_layers0: "layers t = 0 \<Longrightarrow> stripAll t = t"
  by (cases t) auto

lemma layers_Suc: "layers t = Suc k \<Longrightarrow> \<exists>t'. t = Ptr t' \<and> layers t' = k"
  by (cases t) auto

lemma initIfNil_Indir:
  "initIfNil sz (Indir (Ptr T) c) h =
     Inr (if mem h c = 0
          then h\<lparr>mem := (\<lambda>a. if brk h \<le> a \<and> a < brk h + sizeOf sz T then 0 else mem h a)
                          (c := brk h),
                 brk := brk h + sizeOf sz T\<rparr>
          else h)"
  by (simp add: initIfNil_def New_def)

lemma initIfNil_Direct:
  "0 < p \<Longrightarrow> initIfNil sz (Direct (Ptr T) p) h = Inr h"
  by (simp add: initIfNil_def)

lemma deref_Direct:
  "0 < p \<Longrightarrow> 0 < n \<Longrightarrow>
     derefPtrAndInit sz (Direct (Ptr T) p) n h = derefPtrAndInit sz (Indir T p) (n - 1) h"
  by (subst derefPtrAndInit.simps) (simp add: initIfNil_Direct)

lemma deref_lite:
  "0 < brk h \<Longrightarrow> layers T = Suc k \<Longrightarrow>
     \<exists>c h'. derefPtrAndInit sz (Indir T c0) (int k) h = Inr (Indir (Ptr (stripAll T)) c, h')
       \<and> 0 < mem h' c \<and> brk h \<le> brk h'"
proof (induction k arbitrary: T c0 h)
  case 0
  obtain E where T: "T = Ptr E" "layers E = 0"
    using layers_Suc [OF 0(2)] by blast
  have s: "stripAll T = E" using T by (simp add: stripAll_layers0)
  show ?case
    unfolding T(1) using 0(1) s T(1)
    by (subst derefPtrAndInit.simps) (simp add: initIfNil_Indir)
next
  case (Suc k)
  obtain T' where T: "T = Ptr T'" "layers T' = Suc k"
    using layers_Suc [OF Suc(3)] by blast
  obtain h1 where h1: "initIfNil sz (Indir (Ptr T') c0) h = Inr h1" "0 < mem h1 c0"
      "brk h \<le> brk h1"
    using Suc(2) by (simp add: initIfNil_Indir)
  have b1: "0 < brk h1" using Suc(2) h1(3) by simp
  obtain c h' where r: "derefPtrAndInit sz (Indir T' (mem h1 c0)) (int k) h1
        = Inr (Indir (Ptr (stripAll T')) c, h')" "0 < mem h' c" "brk h1 \<le> brk h'"
    using Suc.IH [OF b1 T(2)] by blast
  have "derefPtrAndInit sz (Indir T c0) (int (Suc k)) h
        = derefPtrAndInit sz (Indir T' (mem h1 c0)) (int k) h1"
    unfolding T(1) using h1(1,2) by (subst derefPtrAndInit.simps) simp
  then show ?case using r h1(3) T(1) by auto
qed

lemma init_ok:
  assumes "chainOK (length (fieldValues s)) f" "0 < elemPtr (value_s s)" "0 < brk h"
  shows "\<exists>v s' h'. init sz f (s, h) = Inr (v, s', h') \<and> 0 < elemPtr v \<and> brk h \<le> brk h'
           \<and> (parent f \<noteq> None \<longrightarrow> fieldValues s' ! nat (id_f f) = v)
           \<and> (\<forall>j. id_f f < int j \<longrightarrow> fieldValues s' ! j = fieldValues s ! j)"
  using assms
proof (induction sz f "(s, h)" rule: init.induct)
  case (1 sz i sel d pn et sf)
  then show ?case by simp
next
  case (2 sz i sel d pn et p sf)
  let ?n = "length (fieldValues s)"
  have c: "0 \<le> i" "i < int ?n" "id_f p < i" "derefType (Type sf) 0 = (et, pn)" "chainOK ?n p"
    using 2(2) by simp_all
  have pn: "pn = int (layers (Type sf))" "et = stripAll (Type sf)"
    using c(4) by (simp_all add: derefType_eq)
  show ?case
  proof (cases "elemPtr (fieldValues s ! nat i) > 0")
    case True
    then show ?thesis using c by simp
  next
    case e: False
    obtain pVal s1 h1 where ip: "init sz p (s, h) = Inr (pVal, s1, h1)" "0 < elemPtr pVal"
        "brk h \<le> brk h1" "\<forall>j. id_f p < int j \<longrightarrow> fieldValues s1 ! j = fieldValues s ! j"
      using 2(1) [OF _ e c(5) 2(3,4)] c(1,2) by auto
    have k1: "keeps s s1" using init_keeps [OF ip(1)] .
    then have len: "length (fieldValues s1) = ?n" by (simp add: keeps_def)
    let ?a = "elemPtr pVal + Offset sf"
    have a: "0 < ?a" using ip(2) by simp
    have b1: "0 < brk h1" using 2(4) ip(3) by simp
    obtain valPtr h2 ep where d:
        "(if pn > 0 then derefPtrAndInit sz (NewAt (Type sf) ?a) pn h1
          else Inr (NewAt (Type sf) ?a, h1)) = Inr (valPtr, h2)"
        "Elem h2 valPtr = Inr (Indir et ep)" "Pointer h2 valPtr = Inr ep" "0 < ep"
        "brk h1 \<le> brk h2"
    proof (cases "pn > 0")
      case True
      then obtain k where k: "layers (Type sf) = Suc k" "pn - 1 = int k"
        using pn(1) by (cases "layers (Type sf)") auto
      obtain c' h2 where r: "derefPtrAndInit sz (Indir (Type sf) ?a) (int k) h1
            = Inr (Indir (Ptr (stripAll (Type sf))) c', h2)" "0 < mem h2 c'" "brk h1 \<le> brk h2"
        using deref_lite [OF b1 k(1)] by blast
      have "derefPtrAndInit sz (NewAt (Type sf) ?a) pn h1
            = Inr (Indir (Ptr et) c', h2)"
        using deref_Direct [OF a True] r(1) k(2) pn(2) by (simp add: NewAt_def)
      then show ?thesis using that [of "Indir (Ptr et) c'" h2 "mem h2 c'"] True r(2,3) by simp
    next
      case False
      then have "layers (Type sf) = 0" using pn(1) by simp
      then have "et = Type sf" using pn(2) by (simp add: stripAll_layers0)
      then show ?thesis using that [of "NewAt (Type sf) ?a" h1 ?a] False a by (simp add: NewAt_def)
    qed
    let ?v = "\<lparr>elemVal = Indir et ep, elemPtr = ep\<rparr>"
    have res: "init sz (MkFieldType i sel d pn et (Some p) sf) (s, h)
          = Inr (?v, s1\<lparr>fieldValues := (fieldValues s1)[nat i := ?v]\<rparr>, h2)"
      using c(1,2) e ip(1) d(1,2,3) len by simp
    have fr: "\<forall>j. i < int j \<longrightarrow> ((fieldValues s1)[nat i := ?v]) ! j = fieldValues s ! j"
      using ip(4) c(1,3) by auto
    show ?thesis
      unfolding res using d(4,5) ip(3) fr c(1,2) len by simp
  qed
qed

lemma shape_field_ok:
  assumes "shapeInv t" "k < length (fields_s t)"
  shows "id_f (fields_s t ! k) = int k \<and> chainOK (length (fields_s t)) (fields_s t ! k)
         \<and> parent (fields_s t ! k) \<noteq> None"
proof -
  have m: "fields_s t ! k \<in> set (fields_s t)" using assms(2) by simp
  show ?thesis using assms m unfolding shapeInv_def goodField_def by blast
qed

lemma Type_v_structPtr:
  "isStructPtr (argTyp x) \<Longrightarrow>
     Type_v (DereferencePtrValue h (ValueOf x)) =
       (if argPtr x = 0 then Inl ReflectPanic else Inr (fst (derefType (argTyp x) 0)))"
proof (cases "argTyp x" rule: isStructPtr.cases)
  case (1 n)
  then show ?thesis by (simp add: ValueOf_def)
qed simp_all

lemma isStructPtr_newStructType:
  assumes "isStructPtr (argTyp x)" and "argPtr x \<noteq> 0"
  shows "\<exists>s. newStructType env a tid' h x = Inr s"
proof (cases "argTyp x" rule: isStructPtr.cases)
  case (1 n)
  then show ?thesis
    using assms by (simp add: newStructType_def Type_v_structPtr Let_def)
qed (use assms in simp_all)

lemma nil_newStructType:
  "isStructPtr (argTyp x) \<Longrightarrow> argPtr x = 0 \<Longrightarrow> newStructType env a tid' h x = Inl ReflectPanic"
  by (simp add: newStructType_def Type_v_structPtr)

lemma RangeLoop_ok:
  assumes "\<forall>k < length ts. id_f (ts ! k) = int (i0 + k) \<and> chainOK (length (fieldValues s)) (ts ! k)
              \<and> parent (ts ! k) \<noteq> None"
    and "i0 + length ts \<le> length (fieldValues s)"
    and "0 < elemPtr (value_s s)" and "0 < brk h"
    and cb: "\<forall>t v h0. 0 < brk h0 \<longrightarrow> 0 < brk (snd (fn t v h0))"
  shows "\<exists>tr s' h'. RangeLoop sz fn (int i0) ts (s, h) = Inr (tr, s', h') \<and> keeps s s'
           \<and> rangeSpec i0 ts s tr s'"
  using assms(1-4)
proof (induction ts arbitrary: i0 s h)
  case Nil
  then show ?case by (simp add: rangeSpec_def)
next
  case (Cons t rest)
  let ?n = "length (fieldValues s)"
  have t: "id_f t = int i0" "chainOK ?n t" "parent t \<noteq> None"
    using Cons.prems(1) by auto
  have r: "i0 < ?n" using Cons.prems(2) by simp
  obtain v s1 h1 where st: "(if elemPtr (fieldValues s ! nat (int i0)) > 0
        then Inr (fieldValues s ! nat (int i0), s, h) else init sz t (s, h)) = Inr (v, s1, h1)"
      "0 < elemPtr v" "0 < brk h1" "fieldValues s1 ! i0 = v"
      "\<forall>j. i0 < j \<longrightarrow> fieldValues s1 ! j = fieldValues s ! j"
  proof (cases "elemPtr (fieldValues s ! i0) > 0")
    case True
    then show ?thesis using that [of "fieldValues s ! i0" s h] Cons.prems(4) by simp
  next
    case False
    obtain v s1 h1 where "init sz t (s, h) = Inr (v, s1, h1)" "0 < elemPtr v" "brk h \<le> brk h1"
        "fieldValues s1 ! nat (id_f t) = v"
        "\<forall>j. id_f t < int j \<longrightarrow> fieldValues s1 ! j = fieldValues s ! j"
      using init_ok [OF t(2) Cons.prems(3,4), of sz] t(3) by blast
    then show ?thesis using that [of v s1 h1] False t(1) Cons.prems(4) by simp
  qed
  have k1: "keeps s s1" using st(1) init_keeps by (auto split: if_splits)
  then have len1: "length (fieldValues s1) = ?n" and root1: "value_s s1 = value_s s"
    by (simp_all add: keeps_def)
  obtain ok h2 where c: "fn t (elemVal v) h1 = (ok, h2)" by (metis prod.exhaust)
  have b2: "0 < brk h2" using cb st(3) c by (metis snd_conv)
  show ?case
  proof (cases ok)
    case False
    have res: "RangeLoop sz fn (int i0) (t # rest) (s, h) = Inr ([(t, elemVal v, False)], s1, h2)"
      using r st(1) c False by simp
    have "rangeSpec i0 (t # rest) s [(t, elemVal v, False)] s1"
      using st(2,4,5) by (simp add: rangeSpec_def)
    then show ?thesis using res k1 by blast
  next
    case True
    have p1: "\<forall>k < length rest. id_f (rest ! k) = int (Suc i0 + k)
                \<and> chainOK (length (fieldValues s1)) (rest ! k) \<and> parent (rest ! k) \<noteq> None"
    proof (intro allI impI)
      fix k assume "k < length rest"
      then have "Suc k < length (t # rest)" by simp
      then show "id_f (rest ! k) = int (Suc i0 + k)
                \<and> chainOK (length (fieldValues s1)) (rest ! k) \<and> parent (rest ! k) \<noteq> None"
        using Cons.prems(1) len1 by fastforce
    qed
    have p2: "Suc i0 + length rest \<le> length (fieldValues s1)"
      using Cons.prems(2) len1 by simp
    have p3: "0 < elemPtr (value_s s1)" using Cons.prems(3) root1 by simp
    obtain tr s' h' where ih: "RangeLoop sz fn (int (Suc i0)) rest (s1, h2) = Inr (tr, s', h')"
        "keeps s1 s'" "rangeSpec (Suc i0) rest s1 tr s'"
      using Cons.IH [OF p1 p2 p3 b2] by blast
    have res: "RangeLoop sz fn (int i0) (t # rest) (s, h) = Inr ((t, elemVal v, True) # tr, s', h')"
      using r st(1) c True ih(1) by (simp add: add.commute)
    have slot: "fieldValues s' ! i0 = v"
      using ih(2) st(2,4) r len1 by (auto simp: keeps_def)
    have sp: "rangeSpec i0 (t # rest) s ((t, elemVal v, True) # tr) s'"
      unfolding rangeSpec_def
    proof (intro conjI allI impI)
      show "length ((t, elemVal v, True) # tr) \<le> length (t # rest)"
        using ih(3) by (simp add: rangeSpec_def)
    next
      fix k assume "k < length ((t, elemVal v, True) # tr)"
      then show "fst (((t, elemVal v, True) # tr) ! k) = (t # rest) ! k"
          "0 < elemPtr (fieldValues s' ! (i0 + k))"
          "elemVal (fieldValues s' ! (i0 + k)) = fst (snd (((t, elemVal v, True) # tr) ! k))"
        using ih(3) slot st(2) by (cases k; simp add: rangeSpec_def)+
    next
      fix k assume "Suc k < length ((t, elemVal v, True) # tr)"
      then show "snd (snd (((t, elemVal v, True) # tr) ! k))"
        using ih(3) by (cases k) (auto simp: rangeSpec_def)
    next
      assume "length ((t, elemVal v, True) # tr) < length (t # rest)"
      then show "(t, elemVal v, True) # tr \<noteq> []" "\<not> snd (snd (last ((t, elemVal v, True) # tr)))"
        using ih(3) by (auto simp: rangeSpec_def)
    next
      fix j assume "i0 + length ((t, elemVal v, True) # tr) \<le> j"
      then show "fieldValues s' ! j = fieldValues s ! j"
        using ih(3) st(5) by (auto simp: rangeSpec_def)
    qed
    show ?thesis using res keeps_trans [OF k1 ih(2)] sp by blast
  qed
qed

lemma structP1_facts:
  "newStructType envP1 defaultAccessor 1 heapP1 argP1 = Inr (typ_s structP1)"
  "length (fieldValues structP1) = length (fields_s (typ_s structP1))"
  "0 < elemPtr (value_s structP1)" "0 < brk heapP1"
  using newStructType_P1 by (simp_all add: structP1_def newStruct_def heapP1_def)

lemma length_P1: "length (fields_s shapeP1) = 9"
  using NumField_P1 by (simp add: NumField_def)


section \<open>Materialization and memory\<close>

lemma extends_refl [simp]: "extends h h"
  by (simp add: extends_def)

lemma extends_trans: "extends h h1 \<Longrightarrow> extends h1 h2 \<Longrightarrow> extends h h2"
  unfolding extends_def
proof (intro conjI allI impI)
  assume a: "brk h \<le> brk h1 \<and> (\<forall>x<brk h. mem h1 x = mem h x \<or> mem h x = 0 \<and> brk h \<le> mem h1 x)"
    and b: "brk h1 \<le> brk h2 \<and> (\<forall>x<brk h1. mem h2 x = mem h1 x \<or> mem h1 x = 0 \<and> brk h1 \<le> mem h2 x)"
  show "brk h \<le> brk h2" using a b by simp
  fix x assume x: "x < brk h"
  then have x1: "x < brk h1" using a by simp
  have c1: "mem h1 x = mem h x \<or> mem h x = 0 \<and> brk h \<le> mem h1 x" using a x by blast
  have c2: "mem h2 x = mem h1 x \<or> mem h1 x = 0 \<and> brk h1 \<le> mem h2 x" using b x1 by blast
  show "mem h2 x = mem h x \<or> mem h x = 0 \<and> brk h \<le> mem h2 x"
    using c1 c2 a by auto
qed

lemma extends_keep: "extends h h' \<Longrightarrow> x < brk h \<Longrightarrow> mem h x \<noteq> 0 \<Longrightarrow> mem h' x = mem h x"
  by (auto simp: extends_def)

lemma chainUnder_mono: "chainUnder b h a n \<Longrightarrow> b \<le> b' \<Longrightarrow> chainUnder b' h a n"
  by (induction n arbitrary: a) auto

lemma pathUnder_mono: "pathUnder b h root f \<Longrightarrow> b \<le> b' \<Longrightarrow> pathUnder b' h root f"
  by (induction b h root f rule: pathUnder.induct) (auto split: option.splits intro: chainUnder_mono)

lemma chase_frame:
  assumes "chase h a n = Some q" "chainUnder b h a n"
    and "\<forall>x<b. mem h x \<noteq> 0 \<longrightarrow> mem h' x = mem h x"
  shows "chase h' a n = Some q \<and> chainUnder b h' a n"
  using assms(1,2)
proof (induction n arbitrary: a)
  case 0
  then show ?case by simp
next
  case (Suc n)
  have nz: "mem h a \<noteq> 0" "a < b" using Suc.prems by (auto split: if_splits)
  then have e: "mem h' a = mem h a" using assms(3) by simp
  have "chase h (mem h a) n = Some q" "chainUnder b h (mem h a) n"
    using Suc.prems nz by auto
  then have "chase h' (mem h a) n = Some q \<and> chainUnder b h' (mem h a) n"
    using Suc.IH by blast
  then show ?case using nz e by simp
qed

lemma locate_frame:
  assumes "locate h root f = Some q" "pathUnder b h root f"
    and "\<forall>x<b. mem h x \<noteq> 0 \<longrightarrow> mem h' x = mem h x"
  shows "locate h' root f = Some q \<and> pathUnder b h' root f"
  using assms
proof (induction h root f arbitrary: q rule: locate.induct)
  case (1 h root i sel d pn et sf)
  then show ?case by simp
next
  case (2 h root i sel d pn et p sf)
  obtain pa where pa: "locate h root p = Some pa" "chase h (pa + Offset sf) (nat pn) = Some q"
    using 2(2) by (auto split: option.splits)
  have pu: "pathUnder b h root p" "chainUnder b h (pa + Offset sf) (nat pn)"
    using 2(3) pa(1) by auto
  have a: "locate h' root p = Some pa \<and> pathUnder b h' root p"
    using 2(1) [OF pa(1) pu(1) 2(4)] .
  have c: "chase h' (pa + Offset sf) (nat pn) = Some q \<and> chainUnder b h' (pa + Offset sf) (nat pn)"
    using chase_frame [OF pa(2) pu(2) 2(4)] .
  show ?case using a c by simp
qed

lemma initIfNil_facts:
  assumes "0 < brk h" "c < brk h"
  shows "\<exists>h1. initIfNil sz (Indir (Ptr T) c) h = Inr h1 \<and> extends h h1 \<and> mem h1 c \<noteq> 0
           \<and> (mem h c \<noteq> 0 \<longrightarrow> h1 = h)
           \<and> (mem h c = 0 \<longrightarrow> mem h1 c = brk h \<and> brk h1 = brk h + sizeOf sz T
                 \<and> zeroed h1 (brk h) (sizeOf sz T))"
proof (cases "mem h c = 0")
  case False
  then show ?thesis by (simp add: initIfNil_Indir)
next
  case True
  let ?h1 = "h\<lparr>mem := (\<lambda>a. if brk h \<le> a \<and> a < brk h + sizeOf sz T then 0 else mem h a)
                          (c := brk h),
               brk := brk h + sizeOf sz T\<rparr>"
  have e: "initIfNil sz (Indir (Ptr T) c) h = Inr ?h1"
    using True by (simp add: initIfNil_Indir)
  have x: "extends h ?h1" using True assms by (auto simp: extends_def)
  have z: "zeroed ?h1 (brk h) (sizeOf sz T)" using assms(2) by (auto simp: zeroed_def)
  show ?thesis using e x z True assms(1) by auto
qed

lemma deref_full:
  assumes "0 < brk h" "layers T = Suc k" "chainUnder (brk h) h c0 (Suc k)"
  shows "\<exists>c h'. derefPtrAndInit sz (Indir T c0) (int k) h = Inr (Indir (Ptr (stripAll T)) c, h')
     \<and> derefPost sz (stripAll T) c0 (Suc k) h c h'"
  using assms
proof (induction k arbitrary: T c0 h)
  case 0
  obtain E where T: "T = Ptr E" "layers E = 0"
    using layers_Suc [OF 0(2)] by blast
  have s: "stripAll T = E" using T by (simp add: stripAll_layers0)
  have c0: "c0 < brk h" using 0(3) by simp
  obtain h1 where h1: "initIfNil sz (Indir (Ptr E) c0) h = Inr h1" "extends h h1" "mem h1 c0 \<noteq> 0"
      "mem h c0 \<noteq> 0 \<longrightarrow> h1 = h"
      "mem h c0 = 0 \<longrightarrow> mem h1 c0 = brk h \<and> brk h1 = brk h + sizeOf sz E
                 \<and> zeroed h1 (brk h) (sizeOf sz E)"
    using initIfNil_facts [OF 0(1) c0] by blast
  have r: "derefPtrAndInit sz (Indir T c0) (int 0) h = Inr (Indir (Ptr (stripAll T)) c0, h1)"
    unfolding T(1) using h1(1) s T(1) by (subst derefPtrAndInit.simps) simp
  have b: "brk h \<le> brk h1" using h1(2) by (simp add: extends_def)
  have x: "derefPost sz (stripAll T) c0 (Suc 0) h c0 h1"
    unfolding derefPost_def using h1(2,3,4,5) c0 b s by (auto split: if_splits)
  show ?case by (rule exI [of _ c0], rule exI [of _ h1], rule conjI [OF r x])
next
  case (Suc k)
  obtain T' where T: "T = Ptr T'" "layers T' = Suc k"
    using layers_Suc [OF Suc(3)] by blast
  have sT: "stripAll T = stripAll T'" using T(1) by simp
  have sz8: "sizeOf sz T' = 8" using T(2) by (cases T') auto
  have c0: "c0 < brk h" using Suc(4) by simp
  obtain h1 where h1: "initIfNil sz (Indir (Ptr T') c0) h = Inr h1" "extends h h1" "mem h1 c0 \<noteq> 0"
      "mem h c0 \<noteq> 0 \<longrightarrow> h1 = h"
      "mem h c0 = 0 \<longrightarrow> mem h1 c0 = brk h \<and> brk h1 = brk h + sizeOf sz T'
                 \<and> zeroed h1 (brk h) (sizeOf sz T')"
    using initIfNil_facts [OF Suc(2) c0] by blast
  let ?m = "mem h1 c0"
  have b: "brk h \<le> brk h1" using h1(2) by (simp add: extends_def)
  have b1: "0 < brk h1" using Suc(2) b by simp
  have cu: "chainUnder (brk h1) h1 ?m (Suc k)"
  proof (cases "mem h c0 = 0")
    case True
    then have "?m = brk h" "brk h1 = brk h + 8" "zeroed h1 (brk h) 8"
      using h1(5) sz8 by simp_all
    then show ?thesis by (simp add: zeroed_def)
  next
    case False
    then have "h1 = h" using h1(4) by simp
    then show ?thesis using Suc(4) False by simp
  qed
  obtain c h' where ih0:
      "derefPtrAndInit sz (Indir T' ?m) (int k) h1 = Inr (Indir (Ptr (stripAll T')) c, h')"
      "derefPost sz (stripAll T') ?m (Suc k) h1 c h'"
    using Suc.IH [OF b1 T(2) cu] by blast
  have ih: "0 < mem h' c" "chase h' ?m (Suc k) = Some (mem h' c)"
      "extends h1 h'" "chainUnder (brk h') h' ?m (Suc k)"
      "chase h1 ?m (Suc k) \<noteq> None \<longrightarrow> h' = h1"
      "chase h1 ?m (Suc k) = None \<longrightarrow>
           brk h1 \<le> mem h' c \<and> mem h' c + sizeOf sz (stripAll T') \<le> brk h'
           \<and> zeroed h' (mem h' c) (sizeOf sz (stripAll T'))
           \<and> chainUnder (mem h' c) h' ?m (Suc k)"
    using ih0(2) unfolding derefPost_def by blast+
  have r: "derefPtrAndInit sz (Indir T c0) (int (Suc k)) h
        = Inr (Indir (Ptr (stripAll T)) c, h')"
    unfolding T(1) using h1(1,3) ih0(1) sT T(1) by (subst derefPtrAndInit.simps) simp
  have keep: "mem h' c0 = ?m"
    using extends_keep [OF ih(3) _ h1(3)] c0 b by simp
  have b': "brk h1 \<le> brk h'" using ih(3) by (simp add: extends_def)
  have g1: "chase h' c0 (Suc (Suc k)) = Some (mem h' c)"
    using keep h1(3) ih(2) by simp
  have g2: "extends h h'" using extends_trans [OF h1(2) ih(3)] .
  have g3: "chainUnder (brk h') h' c0 (Suc (Suc k))"
    using keep ih(4) c0 b b' by simp
  have g4: "chase h c0 (Suc (Suc k)) \<noteq> None \<longrightarrow> h' = h"
  proof
    assume a: "chase h c0 (Suc (Suc k)) \<noteq> None"
    then have nz: "mem h c0 \<noteq> 0" by (auto split: if_splits)
    then have e: "h1 = h" using h1(4) by simp
    then have "chase h1 ?m (Suc k) \<noteq> None" using a nz by simp
    then show "h' = h" using ih(5) e by simp
  qed
  have g5: "chase h c0 (Suc (Suc k)) = None \<longrightarrow>
           brk h \<le> mem h' c \<and> mem h' c + sizeOf sz (stripAll T) \<le> brk h'
           \<and> zeroed h' (mem h' c) (sizeOf sz (stripAll T))
           \<and> chainUnder (mem h' c) h' c0 (Suc (Suc k))"
  proof
    assume a: "chase h c0 (Suc (Suc k)) = None"
    have n1: "chase h1 ?m (Suc k) = None"
    proof (cases "mem h c0 = 0")
      case True
      then have "?m = brk h" "zeroed h1 (brk h) 8" using h1(5) sz8 by simp_all
      then have "mem h1 ?m = 0" by (simp add: zeroed_def)
      then show ?thesis by simp
    next
      case False
      then have "h1 = h" using h1(4) by simp
      then show ?thesis using a False by simp
    qed
    have f: "brk h1 \<le> mem h' c" "mem h' c + sizeOf sz (stripAll T') \<le> brk h'"
        "zeroed h' (mem h' c) (sizeOf sz (stripAll T'))" "chainUnder (mem h' c) h' ?m (Suc k)"
      using ih(6) n1 by simp_all
    have "chainUnder (mem h' c) h' c0 (Suc (Suc k))"
      using f(1,4) keep c0 b by simp
    then show "brk h \<le> mem h' c \<and> mem h' c + sizeOf sz (stripAll T) \<le> brk h'
           \<and> zeroed h' (mem h' c) (sizeOf sz (stripAll T))
           \<and> chainUnder (mem h' c) h' c0 (Suc (Suc k))"
      using f b sT by simp
  qed
  have x: "derefPost sz (stripAll T) c0 (Suc (Suc k)) h c h'"
    unfolding derefPost_def by (intro conjI ih(1) g1 g2 g3 g4 g5)
  show ?case by (rule exI [of _ c], rule exI [of _ h'], rule conjI [OF r x])
qed

lemma zeroed_sub: "zeroed h q n \<Longrightarrow> q \<le> q' \<Longrightarrow> q' + n' \<le> q + n \<Longrightarrow> zeroed h q' n'"
  by (auto simp: zeroed_def)

lemma sizeOf_ptr: "0 < layers t \<Longrightarrow> sizeOf sz t = 8"
  by (cases t) auto

lemma init_full:
  assumes "chainOK (length (fieldValues s)) f" "0 < elemPtr (value_s s)" "0 < brk h"
    "layoutOK sz f" "pathUnder (brk h) h (elemPtr (value_s s)) f" "coherent s h f"
  shows "\<exists>v s' h'. init sz f (s, h) = Inr (v, s', h')
           \<and> initPost sz (elemPtr (value_s s)) f h v h'
           \<and> (parent f \<noteq> None \<longrightarrow> fieldValues s' ! nat (id_f f) = v)"
  using assms
proof (induction sz f "(s, h)" rule: init.induct)
  case (1 sz i sel d pn et sf)
  then show ?case by (simp add: initPost_def)
next
  case (2 sz i sel d pn et p sf)
  let ?n = "length (fieldValues s)"
  let ?root = "elemPtr (value_s s)"
  let ?f = "MkFieldType i sel d pn et (Some p) sf"
  have c: "0 \<le> i" "i < int ?n" "id_f p < i" "derefType (Type sf) 0 = (et, pn)" "chainOK ?n p"
    using 2(2) by simp_all
  have pn: "pn = int (layers (Type sf))" "et = stripAll (Type sf)"
    using c(4) by (simp_all add: derefType_eq)
  have lay: "Offset sf + sizeOf sz (Type sf) \<le> sizeOf sz (elemTyp p)" "layoutOK sz p"
    using 2(5) by simp_all
  have pu: "pathUnder (brk h) h ?root p"
      "\<And>pa. locate h ?root p = Some pa \<Longrightarrow> chainUnder (brk h) h (pa + Offset sf) (nat pn)"
    using 2(6) by auto
  have co: "coherent s h p"
      "0 < elemPtr (fieldValues s ! nat i) \<longrightarrow>
         locate h ?root ?f = Some (elemPtr (fieldValues s ! nat i))"
    using 2(7) by simp_all
  show ?case
  proof (cases "elemPtr (fieldValues s ! nat i) > 0")
    case True
    have r: "init sz ?f (s, h) = Inr (fieldValues s ! nat i, s, h)"
      using c(1,2) True by simp
    have "initPost sz ?root ?f h (fieldValues s ! nat i) h"
      unfolding initPost_def using True co(2) 2(6) by simp
    then show ?thesis using r by simp
  next
    case e: False
    obtain pVal s1 h1 where ip: "init sz p (s, h) = Inr (pVal, s1, h1)"
        "initPost sz ?root p h pVal h1"
      using 2(1) [OF _ e c(5) 2(3,4) lay(2) pu(1) co(1)] c(1,2) by auto
    have P: "0 < elemPtr pVal" "locate h1 ?root p = Some (elemPtr pVal)" "extends h h1"
        "pathUnder (brk h1) h1 ?root p" "locate h ?root p \<noteq> None \<longrightarrow> h1 = h"
        "locate h ?root p = None \<longrightarrow>
           brk h \<le> elemPtr pVal \<and> elemPtr pVal + sizeOf sz (elemTyp p) \<le> brk h1
           \<and> zeroed h1 (elemPtr pVal) (sizeOf sz (elemTyp p))
           \<and> pathUnder (elemPtr pVal) h1 ?root p"
      using ip(2) unfolding initPost_def by blast+
    have k1: "keeps s s1" using init_keeps [OF ip(1)] .
    then have len: "length (fieldValues s1) = ?n" by (simp add: keeps_def)
    let ?qp = "elemPtr pVal"
    let ?a = "?qp + Offset sf"
    have a: "0 < ?a" using P(1) by simp
    have bh1: "brk h \<le> brk h1" using P(3) by (simp add: extends_def)
    have b1: "0 < brk h1" using 2(4) bh1 by simp
    have old: "locate h ?root p \<noteq> None \<Longrightarrow> h1 = h \<and> locate h ?root p = Some ?qp"
      using P(2,5) by auto
    obtain v h2 where d:
        "(case (if pn > 0 then derefPtrAndInit sz (NewAt (Type sf) ?a) pn h1
                else Inr (NewAt (Type sf) ?a, h1)) of
            Inl e \<Rightarrow> Inl e
          | Inr (valPtr, h2) \<Rightarrow>
              (case Elem h2 valPtr of
                 Inl e \<Rightarrow> Inl e
               | Inr ev \<Rightarrow>
                   (case Pointer h2 valPtr of
                      Inl e \<Rightarrow> Inl e
                    | Inr ep \<Rightarrow>
                        if \<not> i < int (length (fieldValues s1)) then Inl IndexOutOfRange
                        else Inr (\<lparr>elemVal = ev, elemPtr = ep\<rparr>,
                                  s1\<lparr>fieldValues :=
                                       (fieldValues s1)[nat i := \<lparr>elemVal = ev, elemPtr = ep\<rparr>]\<rparr>,
                                  h2))))
         = Inr (v, s1\<lparr>fieldValues := (fieldValues s1)[nat i := v]\<rparr>, h2)"
        "initPost sz ?root ?f h v h2"
    proof (cases "pn > 0")
      case False
      then have l0: "layers (Type sf) = 0" "nat pn = 0" using pn(1) by simp_all
      then have et: "et = Type sf" using pn(2) by (simp add: stripAll_layers0)
      let ?v = "\<lparr>elemVal = Indir et ?a, elemPtr = ?a\<rparr>"
      have r: "(case (if pn > 0 then derefPtrAndInit sz (NewAt (Type sf) ?a) pn h1
                else Inr (NewAt (Type sf) ?a, h1)) of
            Inl e \<Rightarrow> Inl e
          | Inr (valPtr, h2) \<Rightarrow>
              (case Elem h2 valPtr of
                 Inl e \<Rightarrow> Inl e
               | Inr ev \<Rightarrow>
                   (case Pointer h2 valPtr of
                      Inl e \<Rightarrow> Inl e
                    | Inr ep \<Rightarrow>
                        if \<not> i < int (length (fieldValues s1)) then Inl IndexOutOfRange
                        else Inr (\<lparr>elemVal = ev, elemPtr = ep\<rparr>,
                                  s1\<lparr>fieldValues :=
                                       (fieldValues s1)[nat i := \<lparr>elemVal = ev, elemPtr = ep\<rparr>]\<rparr>,
                                  h2))))
         = Inr (?v, s1\<lparr>fieldValues := (fieldValues s1)[nat i := ?v]\<rparr>, h1)"
        using False a et c(2) len by (simp add: NewAt_def)
      have g1: "locate h1 ?root ?f = Some ?a" using P(2) l0(2) by simp
      have g2: "pathUnder (brk h1) h1 ?root ?f" using P(2,4) l0(2) by simp
      have g3: "locate h ?root ?f \<noteq> None \<longrightarrow> h1 = h"
        using P(5) by (auto split: option.splits)
      have g4: "locate h ?root ?f = None \<longrightarrow>
           brk h \<le> ?a \<and> ?a + sizeOf sz et \<le> brk h1
           \<and> zeroed h1 ?a (sizeOf sz et)
           \<and> pathUnder ?a h1 ?root ?f
           \<and> elemVal ?v = Indir et ?a"
      proof
        assume "locate h ?root ?f = None"
        then have n: "locate h ?root p = None" using l0(2) by (auto split: option.splits)
        have F: "brk h \<le> ?qp" "?qp + sizeOf sz (elemTyp p) \<le> brk h1"
            "zeroed h1 ?qp (sizeOf sz (elemTyp p))" "pathUnder ?qp h1 ?root p"
          using P(6) n by simp_all
        have z: "zeroed h1 ?a (sizeOf sz et)"
          by (rule zeroed_sub [OF F(3)]) (use lay(1) et in simp_all)
        have pa: "pathUnder ?a h1 ?root ?f"
          using pathUnder_mono [OF F(4), of ?a] P(2) l0(2) by simp
        show "brk h \<le> ?a \<and> ?a + sizeOf sz et \<le> brk h1
           \<and> zeroed h1 ?a (sizeOf sz et)
           \<and> pathUnder ?a h1 ?root ?f
           \<and> elemVal ?v = Indir et ?a"
          using F(1,2) lay(1) et z pa by simp
      qed
      have post: "initPost sz ?root ?f h ?v h1"
        unfolding initPost_def using a g1 P(3) g2 g3 g4 by simp
      show ?thesis using that [OF r post] .
    next
      case True
      then obtain k where k: "layers (Type sf) = Suc k" "pn - 1 = int k" "nat pn = Suc k"
        using pn(1) by (cases "layers (Type sf)") auto
      have s8: "sizeOf sz (Type sf) = 8" using k(1) by (simp add: sizeOf_ptr)
      have cu: "chainUnder (brk h1) h1 ?a (Suc k)"
      proof (cases "locate h ?root p")
        case (Some pa)
        then have "h1 = h" "pa = ?qp" using old by auto
        then show ?thesis using pu(2) [OF Some] k(3) by simp
      next
        case None
        have F: "?qp + sizeOf sz (elemTyp p) \<le> brk h1"
            "zeroed h1 ?qp (sizeOf sz (elemTyp p))"
          using P(6) None by simp_all
        have "?a < brk h1" using F(1) lay(1) s8 by simp
        moreover have "mem h1 ?a = 0" using F(2) lay(1) s8 by (simp add: zeroed_def)
        ultimately show ?thesis by simp
      qed
      obtain c' h2 where dr:
          "derefPtrAndInit sz (Indir (Type sf) ?a) (int k) h1
             = Inr (Indir (Ptr (stripAll (Type sf))) c', h2)"
          "derefPost sz (stripAll (Type sf)) ?a (Suc k) h1 c' h2"
        using deref_full [OF b1 k(1) cu] by blast
      let ?q = "mem h2 c'"
      have D: "0 < ?q" "chase h2 ?a (Suc k) = Some ?q" "extends h1 h2"
          "chainUnder (brk h2) h2 ?a (Suc k)" "chase h1 ?a (Suc k) \<noteq> None \<longrightarrow> h2 = h1"
          "chase h1 ?a (Suc k) = None \<longrightarrow>
             brk h1 \<le> ?q \<and> ?q + sizeOf sz et \<le> brk h2
             \<and> zeroed h2 ?q (sizeOf sz et)
             \<and> chainUnder ?q h2 ?a (Suc k)"
        using dr(2) pn(2) unfolding derefPost_def by blast+
      let ?v = "\<lparr>elemVal = Indir et ?q, elemPtr = ?q\<rparr>"
      have de: "derefPtrAndInit sz (NewAt (Type sf) ?a) pn h1 = Inr (Indir (Ptr et) c', h2)"
        using deref_Direct [OF a True] dr(1) k(2) pn(2) by (simp add: NewAt_def)
      have r: "(case (if pn > 0 then derefPtrAndInit sz (NewAt (Type sf) ?a) pn h1
                else Inr (NewAt (Type sf) ?a, h1)) of
            Inl e \<Rightarrow> Inl e
          | Inr (valPtr, h2) \<Rightarrow>
              (case Elem h2 valPtr of
                 Inl e \<Rightarrow> Inl e
               | Inr ev \<Rightarrow>
                   (case Pointer h2 valPtr of
                      Inl e \<Rightarrow> Inl e
                    | Inr ep \<Rightarrow>
                        if \<not> i < int (length (fieldValues s1)) then Inl IndexOutOfRange
                        else Inr (\<lparr>elemVal = ev, elemPtr = ep\<rparr>,
                                  s1\<lparr>fieldValues :=
                                       (fieldValues s1)[nat i := \<lparr>elemVal = ev, elemPtr = ep\<rparr>]\<rparr>,
                                  h2))))
         = Inr (?v, s1\<lparr>fieldValues := (fieldValues s1)[nat i := ?v]\<rparr>, h2)"
        using True de D(1) c(2) len by simp
      have fr: "\<forall>x<brk h1. mem h1 x \<noteq> 0 \<longrightarrow> mem h2 x = mem h1 x"
        using extends_keep [OF D(3)] by blast
      have lp: "locate h2 ?root p = Some ?qp" "pathUnder (brk h1) h2 ?root p"
        using locate_frame [OF P(2,4) fr] by simp_all
      have bh2: "brk h1 \<le> brk h2" using D(3) by (simp add: extends_def)
      have g1: "locate h2 ?root ?f = Some ?q" using lp(1) D(2) k(3) by simp
      have g2: "pathUnder (brk h2) h2 ?root ?f"
        using pathUnder_mono [OF lp(2) bh2] lp(1) D(4) k(3) by simp
      have g0: "extends h h2" using extends_trans [OF P(3) D(3)] .
      have ch: "locate h ?root ?f = None \<longleftrightarrow> chase h1 ?a (Suc k) = None"
      proof (cases "locate h ?root p")
        case (Some pa)
        then have "h1 = h" "pa = ?qp" using old by auto
        then show ?thesis using Some k(3) by simp
      next
        case None
        have F: "zeroed h1 ?qp (sizeOf sz (elemTyp p))" using P(6) None by simp
        have "mem h1 ?a = 0" using F lay(1) s8 by (simp add: zeroed_def)
        then show ?thesis using None by simp
      qed
      have g3: "locate h ?root ?f \<noteq> None \<longrightarrow> h2 = h"
      proof
        assume n: "locate h ?root ?f \<noteq> None"
        then have "locate h ?root p \<noteq> None" by (auto split: option.splits)
        then have "h1 = h" using old by simp
        moreover have "h2 = h1" using D(5) ch n by simp
        ultimately show "h2 = h" by simp
      qed
      have g4: "locate h ?root ?f = None \<longrightarrow>
           brk h \<le> ?q \<and> ?q + sizeOf sz et \<le> brk h2
           \<and> zeroed h2 ?q (sizeOf sz et)
           \<and> pathUnder ?q h2 ?root ?f
           \<and> elemVal ?v = Indir et ?q"
      proof
        assume "locate h ?root ?f = None"
        then have "chase h1 ?a (Suc k) = None" using ch by simp
        then have F: "brk h1 \<le> ?q" "?q + sizeOf sz et \<le> brk h2" "zeroed h2 ?q (sizeOf sz et)"
            "chainUnder ?q h2 ?a (Suc k)"
          using D(6) by simp_all
        have "pathUnder ?q h2 ?root ?f"
          using pathUnder_mono [OF lp(2) F(1)] lp(1) F(4) k(3) by simp
        then show "brk h \<le> ?q \<and> ?q + sizeOf sz et \<le> brk h2
           \<and> zeroed h2 ?q (sizeOf sz et)
           \<and> pathUnder ?q h2 ?root ?f
           \<and> elemVal ?v = Indir et ?q"
          using F(1,2,3) bh1 by simp
      qed
      have post: "initPost sz ?root ?f h ?v h2"
        unfolding initPost_def using D(1) g1 g0 g2 g3 g4 by simp
      show ?thesis using that [OF r post] .
    qed
    have res: "init sz ?f (s, h) = Inr (v, s1\<lparr>fieldValues := (fieldValues s1)[nat i := v]\<rparr>, h2)"
      using c(1,2) e ip(1) d(1) by simp
    have slot: "fieldValues (s1\<lparr>fieldValues := (fieldValues s1)[nat i := v]\<rparr>) ! nat i = v"
      using c(1,2) len by simp
    show ?thesis
      by (rule exI [of _ v], rule exI [of _ "s1\<lparr>fieldValues := (fieldValues s1)[nat i := v]\<rparr>"],
          rule exI [of _ h2]) (use res d(2) slot in simp)
  qed
qed


section \<open>Nil pointers on the way to a field\<close>

text \<open>
  C6, as amended. Take an accessor of an analyzed type, bound to a non-nil instance in
  allocated memory, and a field \<open>f\<close> such that some pointer between the root instance and
  the value of \<open>f\<close> is nil. Provided that the populated slots of \<open>f\<close> and of its ancestors
  agree with memory (\<open>coherent\<close>; on a freshly bound accessor no slot is populated), resolving
  \<open>f\<close> returns a view of the element type at an address \<open>q\<close> that is cached in the slot of
  \<open>f\<close>; reading from the root instance now reaches \<open>q\<close>, so every pointer on the way is
  set; memory is extended: every cell of the old memory is unchanged or was nil and now
  points to a new block; the target at \<open>q\<close> is new and zero; and after any write at \<open>q\<close>,
  reading from the root instance still reaches \<open>q\<close> and finds the written value.
\<close>

theorem nil_chain_materialized:
  assumes "newStructType env a tid' h0 x = Inr (typ_s s)"
    and "length (fieldValues s) = length (fields_s (typ_s s))"
    and "FieldType_s (typ_s s) i = Some f"
    and "0 < elemPtr (value_s s)" and "0 < brk h"
    and "layoutOK sz f" and "pathUnder (brk h) h (elemPtr (value_s s)) f" and "coherent s h f"
    and "locate h (elemPtr (value_s s)) f = None"
  shows "\<exists>q s' h'. FieldValue sz i (s, h) = Inr (Indir (elemTyp f) q, s', h')
     \<and> 0 < q \<and> elemPtr (fieldValues s' ! nat i) = q
     \<and> locate h' (elemPtr (value_s s)) f = Some q
     \<and> extends h h'
     \<and> brk h \<le> q \<and> q + sizeOf sz (elemTyp f) \<le> brk h'
     \<and> zeroed h' q (sizeOf sz (elemTyp f))
     \<and> (\<forall>w. locate (poke h' q w) (elemPtr (value_s s)) f = Some q \<and> mem (poke h' q w) q = w)"
proof -
  let ?root = "elemPtr (value_s s)"
  have inv: "shapeInv (typ_s s)" using newStructType_shapeInv [OF assms(1)] .
  have r: "checkID (typ_s s) i" "0 \<le> i" "nat i < length (fields_s (typ_s s))"
      "f = fields_s (typ_s s) ! nat i"
    using assms(3) by (auto simp: FieldType_s_def checkID_def split: if_splits)
  have F: "id_f f = i" "chainOK (length (fieldValues s)) f" "parent f \<noteq> None"
    using shape_field_ok [OF inv r(3)] r(2,4) assms(2) by auto
  have empty: "\<not> 0 < elemPtr (fieldValues s ! nat i)"
  proof
    assume p: "0 < elemPtr (fieldValues s ! nat i)"
    obtain j sel d pn et pp sf where f: "f = MkFieldType j sel d pn et (Some pp) sf"
      using F(3) by (cases f) auto
    have "j = i" using F(1) f by simp
    then have "locate h ?root f = Some (elemPtr (fieldValues s ! nat i))"
      using assms(8) p unfolding f by simp
    then show False using assms(9) by simp
  qed
  obtain v s' h' where I: "init sz f (s, h) = Inr (v, s', h')" "initPost sz ?root f h v h'"
      "fieldValues s' ! nat (id_f f) = v"
    using init_full [OF F(2) assms(4,5,6,7,8)] F(3) by blast
  let ?q = "elemPtr v"
  have P: "0 < ?q" "locate h' ?root f = Some ?q" "extends h h'"
      "brk h \<le> ?q" "?q + sizeOf sz (elemTyp f) \<le> brk h'"
      "zeroed h' ?q (sizeOf sz (elemTyp f))" "pathUnder ?q h' ?root f"
      "elemVal v = Indir (elemTyp f) ?q"
    using I(2) assms(9) unfolding initPost_def by simp_all
  have fv: "FieldValue sz i (s, h) = Inr (Indir (elemTyp f) ?q, s', h')"
    using r(1,3,4) assms(2) empty I(1) P(8) by (simp add: FieldValue_def)
  have w: "\<forall>w. locate (poke h' ?q w) ?root f = Some ?q \<and> mem (poke h' ?q w) ?q = w"
  proof
    fix w
    have fr: "\<forall>x<?q. mem h' x \<noteq> 0 \<longrightarrow> mem (poke h' ?q w) x = mem h' x"
      by (simp add: poke_def)
    have "locate (poke h' ?q w) ?root f = Some ?q"
      using locate_frame [OF P(2,7) fr] by simp
    then show "locate (poke h' ?q w) ?root f = Some ?q \<and> mem (poke h' ?q w) ?q = w"
      by (simp add: poke_def)
  qed
  have sl: "elemPtr (fieldValues s' ! nat i) = ?q" using I(3) F(1) by simp
  show ?thesis
    by (rule exI [of _ ?q], rule exI [of _ s'], rule exI [of _ h'])
       (intro conjI fv P(1) sl P(2) P(3) P(4) P(5) P(6) w)
qed

theorem nil_chain_materialized_witness:
  "FieldType_s (typ_s structP1) 8 = Some (fields_s shapeP1 ! 8)
   \<and> selector (fields_s shapeP1 ! 8) = ''.P2.P3.g'' \<and> ptrNum (fields_s shapeP1 ! 8) = 2
   \<and> layoutOK szP1 (fields_s shapeP1 ! 8)
   \<and> pathUnder (brk heapP1) heapP1 (elemPtr (value_s structP1)) (fields_s shapeP1 ! 8)
   \<and> coherent structP1 heapP1 (fields_s shapeP1 ! 8)
   \<and> locate heapP1 (elemPtr (value_s structP1)) (fields_s shapeP1 ! 8) = None
   \<and> (\<exists>s' h'. FieldValue szP1 8 (structP1, heapP1) = Inr (Indir (Other ''int'') 136, s', h')
         \<and> locate h' 64 (fields_s shapeP1 ! 8) = Some 136
         \<and> locate (poke h' 136 8) 64 (fields_s shapeP1 ! 8) = Some 136
         \<and> mem (poke h' 136 8) 136 = 8)"
proof -
  let ?f = "fields_s shapeP1 ! 8"
  have t: "typ_s structP1 = shapeP1" "elemPtr (value_s structP1) = 64"
    by (simp_all add: structP1_def newStruct_def)
  have ft: "FieldType_s (typ_s structP1) 8 = Some ?f"
    by (simp add: t FieldType_s_def checkID_def length_P1)
  have sel: "selector ?f = ''.P2.P3.g''" "ptrNum ?f = 2" "elemTyp ?f = Other ''int''"
    by code_simp+
  have lay: "layoutOK szP1 ?f" by code_simp
  have pu: "pathUnder (brk heapP1) heapP1 (elemPtr (value_s structP1)) ?f" by code_simp
  have co: "coherent structP1 heapP1 ?f" by code_simp
  have nil: "locate heapP1 (elemPtr (value_s structP1)) ?f = None" by code_simp
  have e: "map_sum id fst (FieldValue szP1 8 (structP1, heapP1)) = Inr (Indir (Other ''int'') 136)"
    by code_simp
  obtain q s' h' where R: "FieldValue szP1 8 (structP1, heapP1) = Inr (Indir (elemTyp ?f) q, s', h')"
      "locate h' (elemPtr (value_s structP1)) ?f = Some q"
      "\<forall>w. locate (poke h' q w) (elemPtr (value_s structP1)) ?f = Some q \<and> mem (poke h' q w) q = w"
    using nil_chain_materialized [OF structP1_facts(1,2) ft structP1_facts(3,4) lay pu co nil]
    by blast
  have q: "q = 136" using e R(1) by simp
  have "\<exists>s' h'. FieldValue szP1 8 (structP1, heapP1) = Inr (Indir (Other ''int'') 136, s', h')
         \<and> locate h' 64 ?f = Some 136
         \<and> locate (poke h' 136 8) 64 ?f = Some 136
         \<and> mem (poke h' 136 8) 136 = 8"
    by (rule exI [of _ s'], rule exI [of _ h']) (use R q t(2) sel(3) in simp)
  then show ?thesis using ft sel(1,2) lay pu co nil by blast
qed

text \<open>
  Without the proviso the claim fails. The cache of an accessor is never invalidated:
  \<^verbatim>\<open>init\<close> takes the address of a resolved parent from its slot and does not read the
  pointer again. In the state \<open>staleP1\<close> the field \<^verbatim>\<open>.P2.P3.g\<close> (id 8, pointer depth 2) is
  unresolved and the pointer \<^verbatim>\<open>P2.P3\<close> on its way is nil. Its first resolution allocates
  the two targets of its own chain inside the \<^verbatim>\<open>P3\<close> at 104, which the instance no longer
  points to, and returns a view at 136; the pointer cell 96 stays nil, so after a write
  at 136 a walk from the root instance to \<^verbatim>\<open>.P2.P3.g\<close> still ends at a nil pointer.
\<close>

theorem stale_cache_counterexample:
  "elemPtr (value_s (fst staleP1)) = 64
   \<and> fields_s (typ_s (fst staleP1)) = fields_s shapeP1
   \<and> map elemPtr (fieldValues (fst staleP1)) = [0, 0, 80, 0, 0, 104, 0, 0, 0]
   \<and> mem (snd staleP1) 96 = 0
   \<and> selector (fields_s shapeP1 ! 8) = ''.P2.P3.g'' \<and> ptrNum (fields_s shapeP1 ! 8) = 2
   \<and> locate (snd staleP1) 64 (fields_s shapeP1 ! 8) = None
   \<and> map_sum id fst (FieldValue szP1 8 staleP1) = Inr (Indir (Other ''int'') 136)
   \<and> rootReads (FieldValue szP1 8 staleP1) 136 8 64 (fields_s shapeP1 ! 8) = None
   \<and> \<not> coherent (fst staleP1) (snd staleP1) (fields_s shapeP1 ! 8)"
  by code_simp

section \<open>Resolving twice\<close>

text \<open>
  C7. For an accessor bound to a non-nil instance of an analyzed type, in a memory whose
  allocator does not hand out nil, resolving a valid field id returns a view; resolving
  it again returns the same view and changes neither accessor nor memory: the slot of
  the id is populated after the first resolution and holds that view. No operation of
  the accessor (\<^verbatim>\<open>FieldValue\<close>, \<^verbatim>\<open>Field\<close>, \<^verbatim>\<open>Range\<close>, \<^verbatim>\<open>GroupValues\<close>) changes a populated
  slot.
\<close>

theorem resolve_twice:
  assumes "newStructType env a tid' h0 x = Inr (typ_s s)"
    and "length (fieldValues s) = length (fields_s (typ_s s))"
    and "0 < elemPtr (value_s s)" and "0 < brk h" and "checkID (typ_s s) i"
  shows "\<exists>v s1 h1. FieldValue sz i (s, h) = Inr (v, s1, h1)
           \<and> FieldValue sz i (s1, h1) = Inr (v, s1, h1)
           \<and> 0 < elemPtr (fieldValues s1 ! nat i) \<and> elemVal (fieldValues s1 ! nat i) = v
           \<and> keeps s s1
           \<and> (\<forall>op s' h'. perform sz op (s, h) = Inr (s', h') \<longrightarrow> keeps s s')"
proof -
  have inv: "shapeInv (typ_s s)" using newStructType_shapeInv [OF assms(1)] .
  let ?n = "length (fieldValues s)"
  let ?f = "fields_s (typ_s s) ! nat i"
  have r: "0 \<le> i" "nat i < ?n" "i < int ?n"
    using assms(2,5) by (auto simp: checkID_def)
  have f: "id_f ?f = i" "chainOK ?n ?f" "parent ?f \<noteq> None"
    using shape_field_ok [OF inv, of "nat i"] r assms(2) by auto
  have all: "\<forall>op s' h'. perform sz op (s, h) = Inr (s', h') \<longrightarrow> keeps s s'"
    using perform_keeps by blast
  show ?thesis
  proof (cases "0 < elemPtr (fieldValues s ! nat i)")
    case True
    then have "FieldValue sz i (s, h) = Inr (elemVal (fieldValues s ! nat i), s, h)"
      using assms(5) r by (simp add: FieldValue_def)
    then show ?thesis using True all by auto
  next
    case False
    obtain v s1 h1 where i1: "init sz ?f (s, h) = Inr (v, s1, h1)" "0 < elemPtr v"
        "fieldValues s1 ! nat (id_f ?f) = v"
      using init_ok [OF f(2) assms(3,4), of sz] f(3) by blast
    have k: "keeps s s1" using init_keeps [OF i1(1)] .
    have fv1: "FieldValue sz i (s, h) = Inr (elemVal v, s1, h1)"
      using False assms(5) r i1(1) by (simp add: FieldValue_def)
    have fv2: "FieldValue sz i (s1, h1) = Inr (elemVal v, s1, h1)"
      using assms(5) r i1(2,3) f(1) k by (simp add: FieldValue_def keeps_def)
    show ?thesis using fv1 fv2 i1(2,3) f(1) k all by auto
  qed
qed

theorem resolve_twice_witness:
  "checkID (typ_s structP1) 6
   \<and> (\<exists>v s1 h1. FieldValue szP1 6 (structP1, heapP1) = Inr (v, s1, h1)
         \<and> v = Indir (Other ''int'') 104
         \<and> FieldValue szP1 6 (s1, h1) = Inr (v, s1, h1)
         \<and> 0 < elemPtr (fieldValues s1 ! nat 6) \<and> elemVal (fieldValues s1 ! nat 6) = v
         \<and> keeps structP1 s1)"
proof -
  have c: "checkID (typ_s structP1) 6"
    by (simp add: checkID_def structP1_def newStruct_def length_P1)
  have e: "map_sum id fst (FieldValue szP1 6 (structP1, heapP1)) = Inr (Indir (Other ''int'') 104)"
    by code_simp
  show ?thesis
    using resolve_twice [OF structP1_facts c, of szP1] c e by auto
qed

section \<open>Errors\<close>

text \<open>
  C8. \<^verbatim>\<open>Access\<close> and \<^verbatim>\<open>Analyze\<close> return \<^verbatim>\<open>errIllegalType\<close> exactly when the argument
  is not a pointer to a struct, and they return no other error: on a pointer to a struct
  that is not nil they bind or analyze successfully, and on a nil pointer to a struct
  whose type the factory has not analyzed yet they panic in \<^verbatim>\<open>newStructType\<close> instead of
  returning. Binding to a pre-resolved shape returns \<^verbatim>\<open>errTypeMismatch\<close> exactly when
  the runtime type ids differ. An id outside \<open>[0, NumField)\<close> yields the nil descriptor
  and the zero Value and leaves accessor and memory as they were: nothing is resolved.
  The other operations have no error result.
\<close>

theorem only_bind_is_fallible:
  "(\<not> isStructPtr (argTyp x) \<longrightarrow>
      Access env a h x = Inr (Inl errIllegalType) \<and> Analyze env a h x = Inr (Inl errIllegalType))
   \<and> (isStructPtr (argTyp x) \<longrightarrow>
        (\<forall>e. Access env a h x \<noteq> Inr (Inl e)) \<and> (\<forall>e. Analyze env a h x \<noteq> Inr (Inl e)))
   \<and> (isStructPtr (argTyp x) \<and> argPtr x \<noteq> 0 \<longrightarrow>
        (\<exists>s a'. Access env a h x = Inr (Inr (s, a'))) \<and> (\<exists>t a'. Analyze env a h x = Inr (Inr (t, a'))))
   \<and> (isStructPtr (argTyp x) \<and> argPtr x = 0 \<and> load a (argTid x) = None \<longrightarrow>
        Access env a h x = Inl ReflectPanic \<and> Analyze env a h x = Inl ReflectPanic)
   \<and> (tid typ \<noteq> argTid x \<longrightarrow> Access_s typ x = Inl errTypeMismatch)
   \<and> (tid typ = argTid x \<longrightarrow> Access_s typ x = Inr (newStruct typ (argPtr x)))
   \<and> (\<not> checkID (typ_s s) i \<longrightarrow>
        FieldType_s (typ_s s) i = None \<and> FieldValue sz i (s, h) = Inr (zero_v, s, h)
        \<and> Field_s sz i (s, h) = Inr ((None, zero_v), s, h))"
proof -
  have a: "\<not> isStructPtr (argTyp x) \<longrightarrow>
      Access env a h x = Inr (Inl errIllegalType) \<and> Analyze env a h x = Inr (Inl errIllegalType)"
    by (simp add: Access_def Analyze_def parseStructInfoWithCheck_def)
  have b: "isStructPtr (argTyp x) \<longrightarrow>
        (\<forall>e. Access env a h x \<noteq> Inr (Inl e)) \<and> (\<forall>e. Analyze env a h x \<noteq> Inr (Inl e))"
    by (auto simp: Access_def Analyze_def analyze_def parseStructInfoWithCheck_def
          parseStructInfo_def split: option.splits sum.splits)
  have b': "isStructPtr (argTyp x) \<and> argPtr x \<noteq> 0 \<longrightarrow>
        (\<exists>s a'. Access env a h x = Inr (Inr (s, a'))) \<and> (\<exists>t a'. Analyze env a h x = Inr (Inr (t, a')))"
  proof
    assume p: "isStructPtr (argTyp x) \<and> argPtr x \<noteq> 0"
    obtain sT where n: "newStructType env a (argTid x) h x = Inr sT"
      using isStructPtr_newStructType [of x env a "argTid x" h] p by blast
    show "(\<exists>s a'. Access env a h x = Inr (Inr (s, a'))) \<and> (\<exists>t a'. Analyze env a h x = Inr (Inr (t, a')))"
      using p n
      by (auto simp: Access_def Analyze_def analyze_def parseStructInfoWithCheck_def
            parseStructInfo_def split: option.splits)
  qed
  have b'': "isStructPtr (argTyp x) \<and> argPtr x = 0 \<and> load a (argTid x) = None \<longrightarrow>
        Access env a h x = Inl ReflectPanic \<and> Analyze env a h x = Inl ReflectPanic"
    by (simp add: Access_def Analyze_def analyze_def parseStructInfoWithCheck_def
          parseStructInfo_def nil_newStructType)
  have c: "(tid typ \<noteq> argTid x \<longrightarrow> Access_s typ x = Inl errTypeMismatch)
     \<and> (tid typ = argTid x \<longrightarrow> Access_s typ x = Inr (newStruct typ (argPtr x)))"
    by (simp add: Access_s_def parseStructInfo_def)
  have d: "\<not> checkID (typ_s s) i \<longrightarrow>
        FieldType_s (typ_s s) i = None \<and> FieldValue sz i (s, h) = Inr (zero_v, s, h)
        \<and> Field_s sz i (s, h) = Inr ((None, zero_v), s, h)"
    by (simp add: FieldType_s_def FieldValue_def Field_s_def)
  show ?thesis using a b b' b'' c d by blast
qed

theorem only_bind_is_fallible_witness:
  "Access envP1 defaultAccessor heapP1 argInt = Inr (Inl errIllegalType)
   \<and> Analyze envP1 defaultAccessor heapP1 argInt = Inr (Inl errIllegalType)
   \<and> (\<exists>s a'. Access envP1 defaultAccessor heapP1 argP1 = Inr (Inr (s, a')))
   \<and> (\<exists>t a'. Analyze envP1 defaultAccessor heapP1 argP1 = Inr (Inr (t, a')))
   \<and> Access envP1 defaultAccessor heapP1 argNil = Inl ReflectPanic
   \<and> Analyze envP1 defaultAccessor heapP1 argNil = Inl ReflectPanic
   \<and> Access_s shapeP1 argInt = Inl errTypeMismatch
   \<and> Access_s shapeP1 argP1 = Inr (newStruct shapeP1 64)
   \<and> FieldType_s (typ_s structP1) 9 = None
   \<and> FieldValue szP1 9 (structP1, heapP1) = Inr (zero_v, structP1, heapP1)
   \<and> Field_s szP1 (-1) (structP1, heapP1) = Inr ((None, zero_v), structP1, heapP1)"
proof -
  have t: "tid shapeP1 = 1" by code_simp
  have c9: "\<not> checkID (typ_s structP1) 9" "\<not> checkID (typ_s structP1) (-1)"
    by (simp_all add: checkID_def structP1_def newStruct_def length_P1)
  have l: "load defaultAccessor 1 = None" by (simp add: load_def defaultAccessor_def)
  show ?thesis
    using only_bind_is_fallible [of argInt envP1 defaultAccessor heapP1 shapeP1 structP1 9 szP1]
      only_bind_is_fallible [of argP1 envP1 defaultAccessor heapP1 shapeP1 structP1 "-1" szP1]
      only_bind_is_fallible [of argNil envP1 defaultAccessor heapP1 shapeP1 structP1 9 szP1]
      t c9 l
    by (simp add: argInt_def argP1_def argNil_def)
qed

section \<open>Range\<close>

text \<open>
  C10. On an accessor bound to a non-nil instance of an analyzed type, \<^verbatim>\<open>Range\<close>
  returns. Its callback invocations are on the fields of ids \<open>0, 1, 2, ...\<close> in this
  order; each invoked field is materialized and cached, and the callback got the cached
  view; every answer but the last was true, and when fields are left unvisited the last
  answer was false; the slots of the unvisited fields are as they were before.
\<close>

theorem Range_ascending_early_exit:
  assumes "newStructType env a tid' h0 x = Inr (typ_s s)"
    and "length (fieldValues s) = length (fields_s (typ_s s))"
    and "0 < elemPtr (value_s s)" and "0 < brk h"
    and "\<forall>t v h0. 0 < brk h0 \<longrightarrow> 0 < brk (snd (fn t v h0))"
  shows "\<exists>tr s' h'. Range_s sz fn (s, h) = Inr (tr, s', h')
           \<and> length tr \<le> length (fields_s (typ_s s))
           \<and> (\<forall>k < length tr. fst (tr ! k) = fields_s (typ_s s) ! k \<and> id_f (fst (tr ! k)) = int k
                  \<and> 0 < elemPtr (fieldValues s' ! k)
                  \<and> elemVal (fieldValues s' ! k) = fst (snd (tr ! k)))
           \<and> (\<forall>k. Suc k < length tr \<longrightarrow> snd (snd (tr ! k)))
           \<and> (length tr < length (fields_s (typ_s s)) \<longrightarrow> tr \<noteq> [] \<and> \<not> snd (snd (last tr)))
           \<and> (\<forall>j. length tr \<le> j \<longrightarrow> fieldValues s' ! j = fieldValues s ! j)"
proof -
  have inv: "shapeInv (typ_s s)" using newStructType_shapeInv [OF assms(1)] .
  let ?ts = "fields_s (typ_s s)"
  have p1: "\<forall>k < length ?ts. id_f (?ts ! k) = int (0 + k)
              \<and> chainOK (length (fieldValues s)) (?ts ! k) \<and> parent (?ts ! k) \<noteq> None"
    using shape_field_ok [OF inv] assms(2) by simp
  have p2: "0 + length ?ts \<le> length (fieldValues s)" using assms(2) by simp
  obtain tr s' h' where r: "RangeLoop sz fn (int 0) ?ts (s, h) = Inr (tr, s', h')"
      "rangeSpec 0 ?ts s tr s'"
    using RangeLoop_ok [OF p1 p2 assms(3,4,5)] by blast
  have ids: "\<forall>k < length tr. id_f (fst (tr ! k)) = int k"
    using r(2) p1 by (auto simp: rangeSpec_def)
  have "Range_s sz fn (s, h) = Inr (tr, s', h')" using r(1) by (simp add: Range_s_def)
  then show ?thesis using r(2) ids by (auto simp: rangeSpec_def)
qed

theorem Range_ascending_early_exit_witness:
  "\<exists>tr s' h'. Range_s szP1 stopAt3 (structP1, heapP1) = Inr (tr, s', h')
      \<and> map (id_f \<circ> fst) tr = [0, 1, 2, 3]
      \<and> map (snd \<circ> snd) tr = [True, True, True, False]
      \<and> list_all (\<lambda>k. 0 < elemPtr (fieldValues s' ! k)) [0 ..< 4]
      \<and> list_all (\<lambda>j. fieldValues s' ! j = fieldValues structP1 ! j) [4 ..< 9]"
proof -
  have cb: "\<forall>t v h0. 0 < brk h0 \<longrightarrow> 0 < brk (snd (stopAt3 t v h0))"
    by (simp add: stopAt3_def)
  have e: "map_sum id (\<lambda>r. (map (id_f \<circ> fst) (fst r), map (snd \<circ> snd) (fst r)))
             (Range_s szP1 stopAt3 (structP1, heapP1)) = Inr ([0, 1, 2, 3], [True, True, True, False])"
    by code_simp
  obtain tr s' h' where r: "Range_s szP1 stopAt3 (structP1, heapP1) = Inr (tr, s', h')"
      "\<forall>k < length tr. 0 < elemPtr (fieldValues s' ! k)"
      "\<forall>j. length tr \<le> j \<longrightarrow> fieldValues s' ! j = fieldValues structP1 ! j"
    using Range_ascending_early_exit [OF structP1_facts cb, of szP1] by blast
  have m: "map (id_f \<circ> fst) tr = [0, 1, 2, 3]" "map (snd \<circ> snd) tr = [True, True, True, False]"
    using e r(1) by simp_all
  have l: "length tr = 4" using arg_cong [OF m(1), of length] by simp
  have a: "list_all (\<lambda>k. 0 < elemPtr (fieldValues s' ! k)) [0 ..< 4]"
    using r(2) l by (simp add: list_all_iff)
  have b: "list_all (\<lambda>j. fieldValues s' ! j = fieldValues structP1 ! j) [4 ..< 9]"
    using r(3) l by (simp add: list_all_iff)
  show ?thesis
    by (rule exI [of _ tr], rule exI [of _ s'], rule exI [of _ h']) (use r(1) m a b in simp)
qed

end
